theory Spec2Isabelle
  imports Main "HOL-Library.Word" "HOL-Library.Multiset"
begin

unbundle bit_operations_syntax

section \<open>Data model\<close>

text \<open>
  Bytes are \<open>unsigned char\<close>; a file and a \<open>std::vector<unsigned char>\<close> are byte lists.
  \<open>size_t\<close> chunk identifiers are natural numbers: \<open>id_counter\<close> only counts the chunks
  of one file and cannot reach \<open>2^64\<close>.
\<close>

type_synonym byte = "8 word"

definition CHUNK_SIZE :: nat where
  "CHUNK_SIZE = 1024 * 1024"

text \<open>\<open>struct Chunk { size_t id; std::vector<unsigned char> data; }\<close>\<close>

record Chunk =
  chunk_id :: nat
  chunk_data :: "byte list"

text \<open>\<open>struct CompressedChunk { size_t id; std::vector<unsigned char> data; }\<close>\<close>

record CompressedChunk =
  cc_id :: nat
  cc_data :: "byte list"

section \<open>The external codec (zlib)\<close>

text \<open>
  zlib is not part of the repository; its three entry points are parameters of the model.
  \<open>zcompress cap src\<close> is \<open>compress(dest, &destLen, src, srcLen)\<close> called with
  \<open>destLen = cap\<close>: \<open>Some out\<close> when it returns \<open>Z_OK\<close> (\<open>out\<close> are the
  \<open>destLen\<close> bytes it produced), \<open>None\<close> for any other return code.
  \<open>zuncompress cap src\<close> is \<open>uncompress\<close>, likewise.
\<close>

record codec =
  compressBound :: "nat \<Rightarrow> nat"
  zcompress :: "nat \<Rightarrow> byte list \<Rightarrow> byte list option"
  zuncompress :: "nat \<Rightarrow> byte list \<Rightarrow> byte list option"

datatype error =
    Compression_failed
  | Decompression_failed
  | Chunk_size_unreadable
  | Chunk_data_truncated

text \<open>\<open>compressData\<close> (multithreaded_compressor.cpp): a \<open>throw\<close> is \<open>Inl\<close>.\<close>

definition compressData :: "codec \<Rightarrow> byte list \<Rightarrow> error + byte list" where
  "compressData cd input =
     (if input = [] then Inr []
      else (case zcompress cd (compressBound cd (length input)) input of
              None \<Rightarrow> Inl Compression_failed
            | Some output \<Rightarrow> Inr output))"

text \<open>
  \<open>decompressData\<close> (multithreaded_decompressor.cpp); the destination capacity is the
  decompressor's \<open>CHUNK_SIZE\<close>, here the parameter \<open>C\<close>.
\<close>

definition decompressData :: "codec \<Rightarrow> nat \<Rightarrow> byte list \<Rightarrow> error + byte list" where
  "decompressData cd C input =
     (if input = [] then Inr []
      else (case zuncompress cd C input of
              None \<Rightarrow> Inl Decompression_failed
            | Some output \<Rightarrow> Inr output))"

section \<open>Input streams\<close>

text \<open>
  A \<open>std::ifstream\<close> opened on a file: the bytes not yet consumed, the count of the last
  unformatted read, and the \<open>eofbit\<close> and \<open>failbit\<close> flags. Device errors
  (\<open>badbit\<close>) are not modelled.
\<close>

record ifstream =
  rest :: "byte list"
  gcount :: nat
  eofbit :: bool
  failbit :: bool

definition open_file :: "byte list \<Rightarrow> ifstream" where
  "open_file bs = \<lparr>rest = bs, gcount = 0, eofbit = False, failbit = False\<rparr>"

text \<open>
  \<open>in.read(p, n)\<close>: the bytes stored at \<open>p\<close> and the stream afterwards. On a stream that
  is not good nothing is read and \<open>failbit\<close> is set; a read that meets the end of the file
  stores what is left and sets \<open>eofbit\<close> and \<open>failbit\<close>.
\<close>

definition read :: "nat \<Rightarrow> ifstream \<Rightarrow> byte list \<times> ifstream" where
  "read n s =
     (if eofbit s \<or> failbit s then ([], s\<lparr>gcount := 0, failbit := True\<rparr>)
      else if n \<le> length (rest s)
        then (take n (rest s), s\<lparr>rest := drop n (rest s), gcount := n\<rparr>)
      else (rest s, s\<lparr>rest := [], gcount := length (rest s), eofbit := True, failbit := True\<rparr>))"

text \<open>\<open>in.peek()\<close>: \<open>None\<close> is \<open>EOF\<close>.\<close>

definition peek :: "ifstream \<Rightarrow> byte option \<times> ifstream" where
  "peek s =
     (if eofbit s \<or> failbit s then (None, s\<lparr>gcount := 0, failbit := True\<rparr>)
      else (case rest s of
              [] \<Rightarrow> (None, s\<lparr>gcount := 0, eofbit := True\<rparr>)
            | b # _ \<Rightarrow> (Some b, s\<lparr>gcount := 0\<rparr>)))"

text \<open>The stream in a condition (\<open>while (in.read(...))\<close>): \<open>!fail()\<close>.\<close>

definition ok :: "ifstream \<Rightarrow> bool" where
  "ok s = (\<not> failbit s)"

section \<open>Compressor, phase 1: reading the file into chunks\<close>

text \<open>
  The buffer is overwritten from its start by each read: \<open>store bs buffer\<close> is the buffer
  after \<open>bs\<close> was stored at \<open>buffer.data()\<close>.
\<close>

definition store :: "byte list \<Rightarrow> byte list \<Rightarrow> byte list" where
  "store bs buffer = bs @ drop (length bs) buffer"

text \<open>
  \<open>while (in.read(buffer.data(), CHUNK_SIZE)) chunks.push_back({id_counter++, buffer})\<close>.
  The loop does not end when the chunk size is 0 (every read of 0 bytes succeeds), so it
  is a partial function: \<open>None\<close> is divergence.
\<close>

partial_function (option) read_loop ::
  "nat \<Rightarrow> ifstream \<Rightarrow> byte list \<Rightarrow> nat \<Rightarrow> Chunk list
     \<Rightarrow> (ifstream \<times> byte list \<times> nat \<times> Chunk list) option" where
  "read_loop C s buffer id_counter chunks =
     (let r = read C s; buffer' = store (fst r) buffer in
      if ok (snd r)
      then read_loop C (snd r) buffer' (id_counter + 1)
             (chunks @ [\<lparr>chunk_id = id_counter, chunk_data = buffer'\<rparr>])
      else Some (snd r, buffer', id_counter, chunks))"

declare read_loop.simps [code]

text \<open>
  Phase 1 of \<open>main\<close>: the loop, then the last, shorter chunk when \<open>in.gcount() > 0\<close>
  (\<open>buffer.resize(in.gcount())\<close> keeps the front of the buffer).
\<close>

definition read_chunks :: "nat \<Rightarrow> byte list \<Rightarrow> Chunk list option" where
  "read_chunks C file =
     (case read_loop C (open_file file) (replicate C 0) 0 [] of
        None \<Rightarrow> None
      | Some (s, buffer, id_counter, chunks) \<Rightarrow>
          Some (if gcount s > 0
                then chunks @ [\<lparr>chunk_id = id_counter, chunk_data = take (gcount s) buffer\<rparr>]
                else chunks))"

section \<open>Container frames\<close>

text \<open>
  A \<open>uint32_t\<close> is written and read through its object representation
  (\<open>reinterpret_cast<char*>(&size)\<close>); the model fixes the little-endian layout, the same
  in the writer and the reader.
\<close>

definition bytes_of_u32 :: "32 word \<Rightarrow> byte list" where
  "bytes_of_u32 w = [ucast w, ucast (drop_bit 8 w), ucast (drop_bit 16 w), ucast (drop_bit 24 w)]"

definition u32_of_bytes :: "byte list \<Rightarrow> 32 word" where
  "u32_of_bytes bs = of_nat (horner_sum unat 256 bs)"

text \<open>
  The body of the writing loop of \<open>main\<close> (compressor):
  \<open>uint32_t size = data.size(); out.write(&size, 4); out.write(data.data(), size)\<close>.
  The conversion to \<open>uint32_t\<close> reduces the length modulo \<open>2^32\<close>.
\<close>

definition write_frame :: "CompressedChunk \<Rightarrow> byte list" where
  "write_frame cc =
     (let size = (of_nat (length (cc_data cc)) :: 32 word)
      in bytes_of_u32 size @ take (unat size) (cc_data cc))"

definition write_frames :: "CompressedChunk list \<Rightarrow> byte list" where
  "write_frames ccs = concat (map write_frame ccs)"

section \<open>Decompressor\<close>

text \<open>
  The loop of \<open>main\<close> (multithreaded_decompressor.cpp), with the bytes written to the
  output file so far. \<open>Inr out\<close>: the loop ends and \<open>main\<close> returns 0 with \<open>out\<close>
  as the output file; \<open>Inl (e, out)\<close>: \<open>main\<close> returns 1 after writing \<open>out\<close>.
\<close>

function decompress_loop ::
  "codec \<Rightarrow> nat \<Rightarrow> ifstream \<Rightarrow> byte list \<Rightarrow> (error \<times> byte list) + byte list" where
  "decompress_loop cd C s out =
     (let (c, s0) = peek s in
      if c = None then Inr out
      else
        let (hdr, s1) = read 4 s0 in
        if gcount s1 \<noteq> 4
        then (if eofbit s1 then Inr out else Inl (Chunk_size_unreadable, out))
        else
          let compressedChunkSize = unat (u32_of_bytes hdr);
              (compressedData, s2) = read compressedChunkSize s1 in
          if gcount s2 \<noteq> compressedChunkSize then Inl (Chunk_data_truncated, out)
          else (case decompressData cd C compressedData of
                  Inl e \<Rightarrow> Inl (e, out)
                | Inr decompressedData \<Rightarrow> decompress_loop cd C s2 (out @ decompressedData)))"
  by pat_completeness auto
termination
proof (relation "measure (\<lambda>(cd, C, s, out). length (rest s))")
  show "wf (measure (\<lambda>(cd, C, s, out). length (rest s)))"
    by simp
next
  fix cd :: codec and C :: nat and s :: ifstream and out :: "byte list"
    and x c s0 xa hdr s1 compressedChunkSize xb compressedData s2 xc
  assume p: "x = peek s" "(c, s0) = x" "c \<noteq> None"
    and r1: "xa = read 4 s0" "(hdr, s1) = xa" "\<not> gcount s1 \<noteq> 4"
    and r2: "xb = read compressedChunkSize s1" "(compressedData, s2) = xb"
  from p have g0: "\<not> eofbit s0" "\<not> failbit s0" "rest s0 = rest s"
    by (auto simp: peek_def split: if_splits list.splits)
  from r1 g0 have g1: "length (rest s1) < length (rest s)"
    by (auto simp: read_def split: if_splits)
  from r2 have "length (rest s2) \<le> length (rest s1)"
    by (auto simp: read_def split: if_splits)
  with g1 show "((cd, C, s2, out @ xc), cd, C, s, out) \<in> measure (\<lambda>(cd, C, s, out). length (rest s))"
    by simp
qed

definition decompressor_main :: "codec \<Rightarrow> nat \<Rightarrow> byte list \<Rightarrow> (error \<times> byte list) + byte list" where
  "decompressor_main cd C file = decompress_loop cd C (open_file file) []"

section \<open>Compressor, phases 2 and 3: the thread pool and the writer\<close>

text \<open>
  The threads of the compressor are modelled by interleaving their atomic steps. A task
  queued by \<open>main\<close> is the closure \<open>[&results_mutex, &compressed_chunks, chunk]\<close>; it is
  identified with the chunk it captured.

  A worker is at the \<open>condition.wait\<close> at the top of its loop, or inside \<open>task()\<close> with
  the task it popped, or has returned from \<open>worker_thread\<close>.
\<close>

datatype worker = Waiting | Running Chunk | Exited

text \<open>
  Where \<open>main\<close> stands after phase 1: in the loop over \<open>chunks\<close> (with the chunks not
  yet enqueued), in the \<open>join\<close> loop of \<open>shutdown\<close> (with the index of the worker it
  joins next), after \<open>pool.shutdown()\<close> has returned, or after \<open>return\<close> (with the exit
  code).
\<close>

datatype main_pc = Submit "Chunk list" | Join nat | Write_output | Exit nat

record compressor =
  pc :: main_pc
  workers :: "worker list"
  tasks :: "Chunk list"
  stop :: bool
  compressed_chunks :: "CompressedChunk list"
  cerr :: "error list"
  out_file :: "byte list"

text \<open>\<open>ThreadPool::enqueue\<close>: nothing is queued once the pool is stopping.\<close>

definition enqueue :: "Chunk \<Rightarrow> compressor \<Rightarrow> compressor" where
  "enqueue task s = (if stop s then s else s\<lparr>tasks := tasks s @ [task]\<rparr>)"

text \<open>
  \<open>std::sort\<close> with the comparison \<open>a.id < b.id\<close>. The order of equal ids, which
  \<open>std::sort\<close> leaves open, is fixed here; the ids of one run are distinct.
\<close>

definition sort_by_id :: "CompressedChunk list \<Rightarrow> CompressedChunk list" where
  "sort_by_id ccs = sort_key cc_id ccs"

text \<open>
  One step of \<open>main\<close>: an \<open>enqueue\<close>; the start of \<open>shutdown\<close> (\<open>stop = true\<close> under the
  lock, or an immediate return when \<open>stop\<close> is set already); one \<open>join\<close>, which waits
  until that worker has returned; phase 3 (sort, write the frames, \<open>return 0\<close>). A step
  that cannot be taken leaves the state as it is.
\<close>

definition main_step :: "compressor \<Rightarrow> compressor" where
  "main_step s =
     (case pc s of
        Submit (chunk # cs) \<Rightarrow> (enqueue chunk s)\<lparr>pc := Submit cs\<rparr>
      | Submit [] \<Rightarrow> (if stop s then s\<lparr>pc := Write_output\<rparr> else s\<lparr>stop := True, pc := Join 0\<rparr>)
      | Join k \<Rightarrow>
          (if k < length (workers s)
           then (if workers s ! k = Exited then s\<lparr>pc := Join (k + 1)\<rparr> else s)
           else s\<lparr>pc := Write_output\<rparr>)
      | Write_output \<Rightarrow>
          (let sorted_chunks = sort_by_id (compressed_chunks s)
           in s\<lparr>compressed_chunks := sorted_chunks, out_file := write_frames sorted_chunks, pc := Exit 0\<rparr>)
      | Exit code \<Rightarrow> s)"

text \<open>
  One step of worker \<open>i\<close> (\<open>ThreadPool::worker_thread\<close>). At the wait: return when the
  pool is stopping and the queue is empty, pop the front task when there is one, stay
  blocked otherwise. Inside \<open>task()\<close>: \<open>compressData\<close>, then the \<open>push_back\<close> under
  \<open>results_mutex\<close>; an exception leaves \<open>compressed_chunks\<close> untouched and is logged by
  the \<open>catch\<close> of the worker loop.
\<close>

definition worker_step :: "codec \<Rightarrow> nat \<Rightarrow> compressor \<Rightarrow> compressor" where
  "worker_step cd i s =
     (case workers s ! i of
        Waiting \<Rightarrow>
          (if stop s \<and> tasks s = [] then s\<lparr>workers := (workers s)[i := Exited]\<rparr>
           else (case tasks s of
                   [] \<Rightarrow> s
                 | task # ts \<Rightarrow> s\<lparr>tasks := ts, workers := (workers s)[i := Running task]\<rparr>))
      | Running chunk \<Rightarrow>
          (case compressData cd (chunk_data chunk) of
             Inl e \<Rightarrow> s\<lparr>cerr := cerr s @ [e], workers := (workers s)[i := Waiting]\<rparr>
           | Inr compressed_data \<Rightarrow>
               s\<lparr>compressed_chunks := compressed_chunks s @
                     [\<lparr>cc_id = chunk_id chunk, cc_data = compressed_data\<rparr>],
                  workers := (workers s)[i := Waiting]\<rparr>)
      | Exited \<Rightarrow> s)"

datatype thread = Main | Worker nat

definition step :: "codec \<Rightarrow> thread \<Rightarrow> compressor \<Rightarrow> compressor" where
  "step cd t s =
     (case t of
        Main \<Rightarrow> main_step s
      | Worker i \<Rightarrow> if i < length (workers s) then worker_step cd i s else s)"

text \<open>A schedule is the order in which the threads take their steps.\<close>

fun run :: "codec \<Rightarrow> thread list \<Rightarrow> compressor \<Rightarrow> compressor" where
  "run cd [] s = s"
| "run cd (t # ts) s = run cd ts (step cd t s)"

text \<open>
  The state of \<open>main\<close> after phase 1, for a pool of \<open>n\<close> workers
  (\<open>std::thread::hardware_concurrency()\<close>): with no chunk it has returned 0 already, the
  output file opened and empty, and no pool was made.
\<close>

definition start :: "nat \<Rightarrow> Chunk list \<Rightarrow> compressor" where
  "start n chunks =
     \<lparr>pc = (if chunks = [] then Exit 0 else Submit chunks),
      workers = (if chunks = [] then [] else replicate n Waiting),
      tasks = [], stop = False, compressed_chunks = [], cerr = [], out_file = []\<rparr>"

text \<open>
  \<open>main\<close> of the compressor with chunk size \<open>C\<close> and \<open>n\<close> workers, under a schedule:
  \<open>None\<close> when phase 1 does not end.
\<close>

definition compressor_main ::
  "nat \<Rightarrow> nat \<Rightarrow> codec \<Rightarrow> thread list \<Rightarrow> byte list \<Rightarrow> compressor option" where
  "compressor_main n C cd sched file =
     (case read_chunks C file of
        None \<Rightarrow> None
      | Some chunks \<Rightarrow> Some (run cd sched (start n chunks)))"

section \<open>Auxiliary notions for the statements\<close>

text \<open>The chunk with index \<open>j\<close> of a file cut into pieces of \<open>C\<close> bytes.\<close>

definition chunk_at :: "nat \<Rightarrow> byte list \<Rightarrow> nat \<Rightarrow> Chunk" where
  "chunk_at C file j = \<lparr>chunk_id = j, chunk_data = take C (drop (j * C) file)\<rparr>"

text \<open>What the task of a chunk adds to \<open>compressed_chunks\<close>: nothing when \<open>compressData\<close> throws.\<close>

definition task_result :: "codec \<Rightarrow> Chunk \<Rightarrow> CompressedChunk list" where
  "task_result cd chunk =
     (case compressData cd (chunk_data chunk) of
        Inl e \<Rightarrow> []
      | Inr compressed_data \<Rightarrow> [\<lparr>cc_id = chunk_id chunk, cc_data = compressed_data\<rparr>])"

definition task_results :: "codec \<Rightarrow> Chunk list \<Rightarrow> CompressedChunk list" where
  "task_results cd chunks = concat (map (task_result cd) chunks)"

text \<open>What the task of a chunk adds to the log of the worker loop.\<close>

definition task_log :: "codec \<Rightarrow> Chunk \<Rightarrow> error list" where
  "task_log cd chunk =
     (case compressData cd (chunk_data chunk) of Inl e \<Rightarrow> [e] | Inr compressed_data \<Rightarrow> [])"

definition task_logs :: "codec \<Rightarrow> Chunk list \<Rightarrow> error list" where
  "task_logs cd chunks = concat (map (task_log cd) chunks)"

text \<open>The chunks taken from the queue and still inside \<open>task()\<close>.\<close>

definition held :: "worker \<Rightarrow> Chunk list" where
  "held w = (case w of Running chunk \<Rightarrow> [chunk] | _ \<Rightarrow> [])"

definition running :: "worker list \<Rightarrow> Chunk list" where
  "running ws = concat (map held ws)"

text \<open>The chunks \<open>main\<close> has still to enqueue.\<close>

definition pending :: "main_pc \<Rightarrow> Chunk list" where
  "pending p = (case p of Submit cs \<Rightarrow> cs | _ \<Rightarrow> [])"

text \<open>The chunks whose task has not finished: not enqueued yet, queued, or being run.\<close>

definition remaining :: "compressor \<Rightarrow> Chunk multiset" where
  "remaining s = mset (pending (pc s)) + mset (tasks s) + mset (running (workers s))"

definition results_of :: "codec \<Rightarrow> Chunk multiset \<Rightarrow> CompressedChunk multiset" where
  "results_of cd M = (\<Sum>chunk \<in># M. mset (task_result cd chunk))"

definition logs_of :: "codec \<Rightarrow> Chunk multiset \<Rightarrow> error multiset" where
  "logs_of cd M = (\<Sum>chunk \<in># M. mset (task_log cd chunk))"

text \<open>
  The invariant of a run of the pool over \<open>chunks\<close> with \<open>n\<close> workers: \<open>stop\<close> is set
  exactly when \<open>main\<close> has left the loop over the chunks; what is in
  \<open>compressed_chunks\<close> and in the log, together with what the unfinished tasks will add,
  is what the tasks of all chunks add; a worker that has returned saw the pool stopping
  and the queue empty; \<open>main\<close> has joined only workers that have returned; the output
  file is written in phase 3, from the sorted \<open>compressed_chunks\<close>.
\<close>

definition pool_inv :: "codec \<Rightarrow> nat \<Rightarrow> Chunk list \<Rightarrow> compressor \<Rightarrow> bool" where
  "pool_inv cd n chunks s =
     (length (workers s) = n
      \<and> stop s = (case pc s of Submit cs \<Rightarrow> False | _ \<Rightarrow> True)
      \<and> mset (compressed_chunks s) + results_of cd (remaining s) = results_of cd (mset chunks)
      \<and> mset (cerr s) + logs_of cd (remaining s) = logs_of cd (mset chunks)
      \<and> (Exited \<in> set (workers s) \<longrightarrow> stop s \<and> tasks s = [])
      \<and> (case pc s of
            Submit cs \<Rightarrow> out_file s = []
          | Join k \<Rightarrow> k \<le> n \<and> take k (workers s) = replicate k Exited \<and> out_file s = []
          | Write_output \<Rightarrow> workers s = replicate n Exited \<and> out_file s = []
          | Exit code \<Rightarrow> workers s = replicate n Exited \<and> code = 0
              \<and> sorted (map cc_id (compressed_chunks s))
              \<and> out_file s = write_frames (compressed_chunks s)))"

text \<open>
  The number of steps a run has left at most; every step that changes the state lowers it.
\<close>

definition steps_left :: "compressor \<Rightarrow> nat" where
  "steps_left s =
     3 * length (pending (pc s)) + 2 * length (tasks s) + length (running (workers s))
     + length (filter (\<lambda>w. w \<noteq> Exited) (workers s))
     + (case pc s of
          Submit cs \<Rightarrow> length (workers s) + 3
        | Join k \<Rightarrow> length (workers s) - k + 2
        | Write_output \<Rightarrow> 1
        | Exit code \<Rightarrow> 0)"

text \<open>The bytes the decompressor writes for frames that all decode.\<close>

definition decoded :: "codec \<Rightarrow> nat \<Rightarrow> CompressedChunk list \<Rightarrow> byte list" where
  "decoded cd C ccs =
     concat (map (\<lambda>cc. case decompressData cd C (cc_data cc) of Inl e \<Rightarrow> [] | Inr d \<Rightarrow> d) ccs)"

text \<open>\<open>pool.shutdown()\<close> has returned.\<close>

definition shutdown_returned :: "compressor \<Rightarrow> bool" where
  "shutdown_returned s = (case pc s of Write_output \<Rightarrow> True | Exit code \<Rightarrow> True | _ \<Rightarrow> False)"

text \<open>
  Assumptions on zlib. \<open>codec_roundtrip\<close>: given a buffer of \<open>compressBound\<close> bytes,
  \<open>compress\<close> succeeds on a payload of 1 to \<open>C\<close> bytes, its output is not empty (a zlib
  stream starts with a header), and \<open>uncompress\<close> with room for \<open>C\<close> bytes turns the
  output back into the payload. \<open>respects_capacity\<close>: \<open>compress\<close> never produces more
  than the \<open>destLen\<close> bytes it was given room for. \<open>zlib_bound\<close> is the value of zlib's
  \<open>compressBound\<close>.
\<close>

definition codec_roundtrip :: "codec \<Rightarrow> nat \<Rightarrow> bool" where
  "codec_roundtrip cd C =
     (\<forall>x. x \<noteq> [] \<and> length x \<le> C \<longrightarrow>
        (\<exists>y. zcompress cd (compressBound cd (length x)) x = Some y \<and> y \<noteq> []
            \<and> zuncompress cd C y = Some x))"

definition respects_capacity :: "codec \<Rightarrow> bool" where
  "respects_capacity cd =
     (\<forall>cap src output. zcompress cd cap src = Some output \<longrightarrow> length output \<le> cap)"

definition zlib_bound :: "nat \<Rightarrow> nat" where
  "zlib_bound n = n + n div 4096 + n div 16384 + n div 33554432 + 13"

text \<open>
  Two small codecs for concrete runs. \<open>stored_codec\<close> puts one byte in front of the
  payload; \<open>picky_codec\<close> does the same and refuses a payload that starts with 255.
\<close>

definition stored_codec :: codec where
  "stored_codec =
     \<lparr>compressBound = zlib_bound,
      zcompress = (\<lambda>cap src. if length src + 1 \<le> cap then Some (120 # src) else None),
      zuncompress = (\<lambda>cap src. case src of
                        [] \<Rightarrow> None
                      | b # bs \<Rightarrow> if b = 120 \<and> length bs \<le> cap then Some bs else None)\<rparr>"

definition picky_codec :: codec where
  "picky_codec =
     stored_codec\<lparr>zcompress := (\<lambda>cap src. if length src + 1 \<le> cap \<and> hd src \<noteq> 255
                                             then Some (120 # src) else None)\<rparr>"

text \<open>
  Two schedules for a file of three chunks. With two workers: \<open>main\<close> enqueues the three
  chunks and starts \<open>shutdown\<close>; worker 0 takes chunk 0, worker 1 takes chunk 1 and
  finishes first; worker 0 finishes, then takes and finishes chunk 2; both workers
  return; \<open>main\<close> joins them, sorts and writes. With one worker: the worker takes and
  finishes the chunks while \<open>main\<close> is still enqueuing.
\<close>

definition schedule_two_workers :: "thread list" where
  "schedule_two_workers =
     [Main, Main, Main, Main, Worker 0, Worker 1, Worker 1, Worker 0, Worker 0, Worker 0,
      Worker 0, Worker 1, Main, Main, Main, Main]"

definition schedule_one_worker :: "thread list" where
  "schedule_one_worker =
     [Main, Worker 0, Worker 0, Main, Worker 0, Main, Worker 0, Main, Worker 0, Worker 0,
      Worker 0, Main, Main, Main]"

section \<open>The length field of a frame\<close>

lemma le_bytes_value:
  fixes x :: nat
  assumes "x < 2 ^ 32"
  shows "x mod 256 + 256 * (x div 256 mod 256 + 256 * (x div 65536 mod 256 + 256 * (x div 16777216 mod 256))) = x"
proof -
  define a where "a = x div 256"
  define b where "b = a div 256"
  define c where "c = b div 256"
  have ab: "x div 65536 = b" by (simp add: a_def b_def div_mult2_eq)
  have ac: "x div 16777216 = c" by (simp add: a_def b_def c_def div_mult2_eq)
  have "c < 256" using assms unfolding ac[symmetric] by (simp add: less_mult_imp_div_less)
  then have e3: "c mod 256 = c" by simp
  have e2: "b mod 256 + 256 * c = b" unfolding c_def by simp
  have e1: "a mod 256 + 256 * b = a" unfolding b_def by simp
  have e0: "x mod 256 + 256 * a = x" unfolding a_def by simp
  show ?thesis
    unfolding ab ac a_def[symmetric] by (simp only: e3 e2 e1 e0)
qed

lemma u32_roundtrip: "u32_of_bytes (bytes_of_u32 w) = w"
proof -
  have a: "unat (ucast w :: byte) = unat w mod 256"
    by (simp add: unsigned_ucast_eq take_bit_eq_mod)
  have b: "unat (ucast (drop_bit n w) :: byte) = (unat w div 2 ^ n) mod 256" for n
    by (simp only: unsigned_ucast_eq unat_drop_bit_eq) (simp add: take_bit_eq_mod drop_bit_eq_div)
  have lt: "unat w < 2 ^ 32" using unsigned_less[of w] by simp
  have "horner_sum unat 256 (bytes_of_u32 w) =
     unat w mod 256 + 256 * (unat w div 256 mod 256 + 256 * (unat w div 65536 mod 256 + 256 * (unat w div 16777216 mod 256)))"
    using b[of 8] b[of 16] b[of 24] by (simp add: bytes_of_u32_def a)
  also have "\<dots> = unat w" by (rule le_bytes_value[OF lt])
  finally show ?thesis by (simp add: u32_of_bytes_def)
qed

lemma length_bytes_of_u32: "length (bytes_of_u32 w) = 4"
  by (simp add: bytes_of_u32_def)

section \<open>Phase 1 cuts the file into chunks\<close>

lemma ceil_div:
  fixes L C :: nat
  assumes "0 < C"
  shows "(L + C - 1) div C = L div C + (if L mod C = 0 then 0 else 1)"
proof -
  define q r where "q = L div C" and "r = L mod C"
  have L: "L = C * q + r" and r: "r < C" using assms by (simp_all add: q_def r_def)
  show ?thesis
  proof (cases "r = 0")
    case True
    have "(L + C - 1) div C = q"
      using L True assms by (intro div_nat_eqI) (simp_all add: algebra_simps)
    then show ?thesis using True by (simp add: q_def r_def)
  next
    case False
    have "(L + C - 1) div C = Suc q"
      using L False r assms by (intro div_nat_eqI) (simp_all add: algebra_simps)
    then show ?thesis using False by (simp add: q_def r_def)
  qed
qed

lemma ceil_div_covers:
  fixes L C :: nat
  assumes "0 < C"
  shows "L \<le> (L + C - 1) div C * C"
proof -
  define n where "n = (L + C - 1) div C"
  have n: "n = L div C + (if L mod C = 0 then 0 else 1)"
    unfolding n_def by (rule ceil_div[OF assms])
  have dm: "L = L div C * C + L mod C" by simp
  have "L \<le> n * C"
  proof (cases "L mod C = 0")
    case True
    then show ?thesis using dm by (simp add: n)
  next
    case False
    have "L \<le> L div C * C + C"
      using mod_less_divisor[OF assms, of L] div_mult_mod_eq[of L C] by linarith
    then show ?thesis using False by (simp add: n)
  qed
  then show ?thesis unfolding n_def .
qed

lemma read_loop_good:
  assumes "0 < C"
  shows "\<not> eofbit s \<Longrightarrow> \<not> failbit s \<Longrightarrow> length buffer = C \<Longrightarrow>
    \<exists>buffer'. read_loop C s buffer i chunks =
      Some (s\<lparr>rest := [], gcount := length (rest s) mod C, eofbit := True, failbit := True\<rparr>,
            buffer', i + length (rest s) div C,
            chunks @ map (\<lambda>j. \<lparr>chunk_id = i + j, chunk_data = take C (drop (j * C) (rest s))\<rparr>)
                       [0..<length (rest s) div C])
      \<and> take (length (rest s) mod C) buffer' = drop (length (rest s) div C * C) (rest s)"
proof (induction "length (rest s)" arbitrary: s buffer i chunks rule: less_induct)
  case less
  show ?case
  proof (cases "C \<le> length (rest s)")
    case True
    let ?s1 = "s\<lparr>rest := drop C (rest s), gcount := C\<rparr>"
    let ?b1 = "take C (rest s)"
    let ?ch = "chunks @ [\<lparr>chunk_id = i, chunk_data = ?b1\<rparr>]"
    have st: "store (take C (rest s)) buffer = ?b1"
      using True less.prems by (simp add: store_def)
    have lt: "length (rest ?s1) < length (rest s)" using True assms by simp
    have g: "\<not> eofbit ?s1" "\<not> failbit ?s1" "length ?b1 = C" using less.prems True by simp_all
    from less.hyps[OF lt g, of "i + 1" ?ch]
    obtain buffer' where
      IH: "read_loop C ?s1 ?b1 (i + 1) ?ch =
        Some (?s1\<lparr>rest := [], gcount := length (rest ?s1) mod C, eofbit := True, failbit := True\<rparr>,
            buffer', i + 1 + length (rest ?s1) div C,
            ?ch @ map (\<lambda>j. \<lparr>chunk_id = i + 1 + j, chunk_data = take C (drop (j * C) (rest ?s1))\<rparr>)
                       [0..<length (rest ?s1) div C])"
      and tk: "take (length (rest ?s1) mod C) buffer' = drop (length (rest ?s1) div C * C) (rest ?s1)"
      by blast
    have d: "length (rest s) div C = Suc ((length (rest s) - C) div C)"
      using True assms by (simp add: le_div_geq)
    have m: "(length (rest s) - C) mod C = length (rest s) mod C"
      using True assms by (simp add: le_mod_geq)
    have unf: "read_loop C s buffer i chunks = read_loop C ?s1 ?b1 (i + 1) ?ch"
      using True less.prems st
      by (subst read_loop.simps) (simp add: read_def ok_def Let_def)
    have mp: "map (\<lambda>j. \<lparr>chunk_id = i + j, chunk_data = take C (drop (j * C) (rest s))\<rparr>) [0..<Suc ((length (rest s) - C) div C)]
       = \<lparr>chunk_id = i, chunk_data = ?b1\<rparr> # map (\<lambda>j. \<lparr>chunk_id = i + 1 + j, chunk_data = take C (drop (j * C) (drop C (rest s)))\<rparr>) [0..<(length (rest s) - C) div C]"
      by (simp add: upt_conv_Cons map_Suc_upt[symmetric] add.commute del: upt_Suc)
    show ?thesis
      apply (rule exI[of _ buffer'])
      using IH tk unf d m mp by (simp add: add.commute)
  next
    case False
    then have "length (rest s) div C = 0" "length (rest s) mod C = length (rest s)" by auto
    then show ?thesis using False less.prems
      by (subst read_loop.simps) (simp add: read_def ok_def Let_def store_def)
  qed
qed

lemma read_chunks_eq:
  assumes "0 < C"
  shows "read_chunks C file = Some (map (chunk_at C file) [0..<(length file + C - 1) div C])"
proof -
  let ?L = "length file"
  from read_loop_good[OF assms, of "open_file file" "replicate C 0" 0 "[]"]
  obtain buffer' where
    rl: "read_loop C (open_file file) (replicate C 0) 0 [] =
      Some ((open_file file)\<lparr>rest := [], gcount := ?L mod C, eofbit := True, failbit := True\<rparr>,
            buffer', ?L div C, map (chunk_at C file) [0..<?L div C])"
    and tk: "take (?L mod C) buffer' = drop (?L div C * C) file"
    by (auto simp: open_file_def chunk_at_def)
  show ?thesis
  proof (cases "?L mod C = 0")
    case True
    then show ?thesis using rl assms ceil_div[OF assms, of ?L] by (simp add: read_chunks_def)
  next
    case False
    have "length (drop (?L div C * C) file) = ?L mod C"
      by (simp add: modulo_nat_def)
    then have "take C (drop (?L div C * C) file) = drop (?L div C * C) file"
      using assms by simp
    then show ?thesis using False rl tk assms ceil_div[OF assms, of ?L]
      by (simp add: read_chunks_def chunk_at_def)
  qed
qed

lemma concat_chunks:
  "length file \<le> n * C \<Longrightarrow> concat (map (\<lambda>j. take C (drop (j * C) file)) [0..<n]) = file"
proof (induction n arbitrary: "file")
  case 0
  then show ?case by simp
next
  case (Suc n)
  have "concat (map (\<lambda>j. take C (drop (j * C) file)) [0..<Suc n])
      = take C file @ concat (map (\<lambda>j. take C (drop (j * C) (drop C file))) [0..<n])"
    by (simp add: upt_conv_Cons map_Suc_upt[symmetric] add.commute comp_def del: upt_Suc)
  also have "concat (map (\<lambda>j. take C (drop (j * C) (drop C file))) [0..<n]) = drop C file"
    using Suc.prems by (intro Suc.IH) simp
  finally show ?case by simp
qed

lemma file_chunks_ids:
  "map chunk_id (map (chunk_at C file) [0..<N]) = [0..<N]"
  by (simp add: chunk_at_def comp_def map_idI)

lemma read_chunks_facts:
  assumes "0 < C" "read_chunks C file = Some chunks"
  shows "map chunk_id chunks = [0..<length chunks]"
    "concat (map chunk_data chunks) = file"
    "\<forall>c \<in> set chunks. length (chunk_data c) \<le> C"
proof -
  let ?N = "(length file + C - 1) div C"
  have c: "chunks = map (chunk_at C file) [0..<?N]"
    using read_chunks_eq[OF assms(1), of "file"] assms(2) by simp
  then have len: "length chunks = ?N" by simp
  show "map chunk_id chunks = [0..<length chunks]"
    unfolding len unfolding c by (rule file_chunks_ids)
  from concat_chunks[OF ceil_div_covers[OF assms(1), of "length file"]]
  show "concat (map chunk_data chunks) = file"
    unfolding c by (simp add: comp_def chunk_at_def)
  show "\<forall>c \<in> set chunks. length (chunk_data c) \<le> C"
    unfolding c by (auto simp: chunk_at_def)
qed

text \<open>
  Claim C2. For a chunk size \<open>C > 0\<close> and a file of \<open>L\<close> bytes, phase 1 ends with
  \<open>ceil(L / C)\<close> chunks (none for the empty file), numbered \<open>0, 1, 2, ...\<close> in order;
  every chunk but the last holds exactly \<open>C\<close> bytes, the last one \<open>L mod C\<close> bytes (or
  \<open>C\<close> when \<open>C\<close> divides \<open>L\<close>), and the payloads in order concatenate to the file.
\<close>

theorem read_chunks_correct:
  assumes "0 < C"
  shows "\<exists>chunks. read_chunks C file = Some chunks
     \<and> length chunks = (length file + C - 1) div C
     \<and> (length file = 0 \<longrightarrow> chunks = [])
     \<and> (\<forall>j < length chunks. chunk_id (chunks ! j) = j)
     \<and> (\<forall>j. j + 1 < length chunks \<longrightarrow> length (chunk_data (chunks ! j)) = C)
     \<and> (chunks \<noteq> [] \<longrightarrow>
          length (chunk_data (last chunks)) = (if length file mod C = 0 then C else length file mod C))
     \<and> concat (map chunk_data chunks) = file"
proof -
  let ?L = "length file"
  define n where "n = (?L + C - 1) div C"
  define chunks where "chunks = map (chunk_at C file) [0..<n]"
  have n: "n = ?L div C + (if ?L mod C = 0 then 0 else 1)"
    unfolding n_def by (rule ceil_div[OF assms])
  have dm: "?L = ?L div C * C + ?L mod C" by simp
  have le: "?L \<le> n * C"
    unfolding n_def by (rule ceil_div_covers[OF assms])
  have len: "length (chunk_data (chunks ! j)) = min C (?L - j * C)" if "j < n" for j
    using that by (simp add: chunks_def chunk_at_def min.commute)
  have 1: "read_chunks C file = Some chunks"
    unfolding chunks_def n_def by (rule read_chunks_eq[OF assms])
  have 2: "length chunks = n" by (simp add: chunks_def)
  have 3: "?L = 0 \<longrightarrow> chunks = []" using assms by (simp add: chunks_def n)
  have 4: "\<forall>j < length chunks. chunk_id (chunks ! j) = j"
    by (simp add: chunks_def chunk_at_def)
  have 5: "\<forall>j. j + 1 < length chunks \<longrightarrow> length (chunk_data (chunks ! j)) = C"
  proof (intro allI impI)
    fix j assume j: "j + 1 < length chunks"
    then have "j + 1 \<le> ?L div C" by (simp add: 2 n split: if_splits)
    then have "(j + 1) * C \<le> ?L div C * C" by (rule mult_le_mono1)
    also have "\<dots> \<le> ?L" by simp
    finally have "C \<le> ?L - j * C" by simp
    then show "length (chunk_data (chunks ! j)) = C" using j len[of j] 2 by simp
  qed
  have 6: "chunks \<noteq> [] \<longrightarrow>
          length (chunk_data (last chunks)) = (if ?L mod C = 0 then C else ?L mod C)"
  proof
    assume ne: "chunks \<noteq> []"
    then have pos: "0 < n" using 2 by auto
    have "last chunks = chunks ! (n - 1)" using ne 2 by (simp add: last_conv_nth)
    then have l: "length (chunk_data (last chunks)) = min C (?L - (n - 1) * C)"
      using len[of "n - 1"] pos by simp
    show "length (chunk_data (last chunks)) = (if ?L mod C = 0 then C else ?L mod C)"
    proof (cases "?L mod C = 0")
      case True
      with pos have q: "0 < ?L div C" "n = ?L div C" by (simp_all add: n)
      have "?L - (n - 1) * C = ?L div C * C - (?L div C - 1) * C" using True dm q by simp
      also have "\<dots> = C" using q(1) by (simp add: diff_mult_distrib)
      finally show ?thesis using True l by simp
    next
      case False
      then have "n - 1 = ?L div C" by (simp add: n)
      then have "?L - (n - 1) * C = ?L mod C" by (simp add: modulo_nat_def)
      then show ?thesis using False l assms by simp
    qed
  qed
  have 7: "concat (map chunk_data chunks) = file"
    using concat_chunks[OF le] by (simp add: comp_def chunks_def chunk_at_def)
  from 1 2 3 4 5 6 7 show ?thesis unfolding n_def by blast
qed

theorem read_chunks_correct_witness:
  "0 < (2::nat) \<and> read_chunks 2 [1, 2, 3, 4, 5] =
     Some [\<lparr>chunk_id = 0, chunk_data = [1, 2]\<rparr>, \<lparr>chunk_id = 1, chunk_data = [3, 4]\<rparr>,
           \<lparr>chunk_id = 2, chunk_data = [5]\<rparr>]"
proof -
  have pos: "0 < (2::nat)" by simp
  from read_chunks_correct[OF pos, of "[1, 2, 3, 4, 5]"]
  obtain chunks where c: "read_chunks 2 [1, 2, 3, 4, 5] = Some chunks"
    and "concat (map chunk_data chunks) = [1, 2, 3, 4, 5]" by blast
  have "read_chunks 2 [1, 2, 3, 4, 5] =
     Some [\<lparr>chunk_id = 0, chunk_data = [1, 2]\<rparr>, \<lparr>chunk_id = 1, chunk_data = [3, 4]\<rparr>,
           \<lparr>chunk_id = 2, chunk_data = [5]\<rparr>]"
    by code_simp
  with pos c show ?thesis by simp
qed

section \<open>The decompressor reads frame after frame\<close>

lemma decompress_loop_end:
  "\<not> eofbit s \<Longrightarrow> \<not> failbit s \<Longrightarrow> rest s = [] \<Longrightarrow> decompress_loop cd C s out = Inr out"
  by (subst decompress_loop.simps) (simp add: peek_def)

lemma write_frame_fits:
  "length (cc_data cc) < 2 ^ 32 \<Longrightarrow>
     write_frame cc = bytes_of_u32 (of_nat (length (cc_data cc))) @ cc_data cc"
  by (simp add: write_frame_def Let_def unat_of_nat)

lemma decompress_loop_header:
  assumes "\<not> eofbit s" "\<not> failbit s" "rest s = bytes_of_u32 w @ bs"
  shows "decompress_loop cd C s out =
     (let (compressedData, s2) = read (unat w) (s\<lparr>rest := bs, gcount := 4\<rparr>) in
      if gcount s2 \<noteq> unat w then Inl (Chunk_data_truncated, out)
      else (case decompressData cd C compressedData of
              Inl e \<Rightarrow> Inl (e, out)
            | Inr decompressedData \<Rightarrow> decompress_loop cd C s2 (out @ decompressedData)))"
proof -
  obtain b bs' where r: "rest s = b # bs'" using assms(3) by (cases "rest s") (simp_all add: bytes_of_u32_def)
  have p: "peek s = (Some b, s\<lparr>gcount := 0\<rparr>)" using assms(1,2) r by (simp add: peek_def)
  have rd: "read 4 (s\<lparr>gcount := 0\<rparr>) = (bytes_of_u32 w, s\<lparr>rest := bs, gcount := 4\<rparr>)"
    using assms by (simp add: read_def length_bytes_of_u32)
  show ?thesis
    by (subst decompress_loop.simps) (simp add: p rd u32_roundtrip Let_def)
qed

lemma decompress_loop_frame:
  assumes "\<not> eofbit s" "\<not> failbit s" "rest s = write_frame cc @ bs"
    and "length (cc_data cc) < 2 ^ 32"
  shows "decompress_loop cd C s out =
     (case decompressData cd C (cc_data cc) of
        Inl e \<Rightarrow> Inl (e, out)
      | Inr d \<Rightarrow> decompress_loop cd C (s\<lparr>rest := bs, gcount := length (cc_data cc)\<rparr>) (out @ d))"
proof -
  let ?w = "of_nat (length (cc_data cc)) :: 32 word"
  have u: "unat ?w = length (cc_data cc)" using assms(4) by (simp add: unat_of_nat)
  have r: "rest s = bytes_of_u32 ?w @ (cc_data cc @ bs)"
    using assms(3,4) by (simp add: write_frame_fits)
  show ?thesis
    by (subst decompress_loop_header[OF assms(1,2) r]) (simp add: u read_def assms(1,2))
qed

lemma decompress_loop_frames:
  "\<not> eofbit s \<Longrightarrow> \<not> failbit s \<Longrightarrow> rest s = write_frames ccs @ bs \<Longrightarrow>
   \<forall>cc \<in> set ccs. length (cc_data cc) < 2 ^ 32 \<and> (\<exists>d. decompressData cd C (cc_data cc) = Inr d) \<Longrightarrow>
   \<exists>g. decompress_loop cd C s out =
        decompress_loop cd C (s\<lparr>rest := bs, gcount := g\<rparr>) (out @ decoded cd C ccs)"
proof (induction ccs arbitrary: s out)
  case Nil
  have "s = s\<lparr>rest := bs, gcount := gcount s\<rparr>" using Nil by (simp add: write_frames_def)
  then show ?case by (intro exI[of _ "gcount s"]) (simp add: decoded_def)
next
  case (Cons cc ccs)
  from Cons.prems(4) obtain d where d: "decompressData cd C (cc_data cc) = Inr d"
    and len: "length (cc_data cc) < 2 ^ 32" by auto
  let ?s1 = "s\<lparr>rest := write_frames ccs @ bs, gcount := length (cc_data cc)\<rparr>"
  have r: "rest s = write_frame cc @ (write_frames ccs @ bs)"
    using Cons.prems(3) by (simp add: write_frames_def)
  have 1: "decompress_loop cd C s out = decompress_loop cd C ?s1 (out @ d)"
    using decompress_loop_frame[OF Cons.prems(1,2) r len] d by simp
  from Cons.IH[of ?s1 "out @ d"] Cons.prems obtain g where
    2: "decompress_loop cd C ?s1 (out @ d) =
        decompress_loop cd C (?s1\<lparr>rest := bs, gcount := g\<rparr>) ((out @ d) @ decoded cd C ccs)"
    by auto
  show ?case
    using 1 2 d by (intro exI[of _ g]) (simp add: decoded_def)
qed

text \<open>
  Claim C8. In a container whose first frames all decode, a frame whose payload is shorter
  than its length field declares, or whose payload the codec refuses, ends the run with
  an error: the output file holds what the frames before it decoded to and nothing else,
  whatever follows the bad frame in the container.
\<close>

theorem decompressor_stops_at_first_bad_frame:
  assumes "\<forall>cc \<in> set ccs. length (cc_data cc) < 2 ^ 32 \<and> (\<exists>d. decompressData cd C (cc_data cc) = Inr d)"
  shows "(length payload < unat w \<longrightarrow>
            decompressor_main cd C (write_frames ccs @ bytes_of_u32 w @ payload)
              = Inl (Chunk_data_truncated, decoded cd C ccs))
       \<and> (length (cc_data bad) < 2 ^ 32 \<and> decompressData cd C (cc_data bad) = Inl e \<longrightarrow>
            decompressor_main cd C (write_frames ccs @ write_frame bad @ after)
              = Inl (e, decoded cd C ccs))"
proof (intro conjI impI)
  assume short: "length payload < unat w"
  let ?s = "open_file (write_frames ccs @ bytes_of_u32 w @ payload)"
  have g: "\<not> eofbit ?s" "\<not> failbit ?s" "rest ?s = write_frames ccs @ (bytes_of_u32 w @ payload)"
    by (simp_all add: open_file_def)
  from decompress_loop_frames[OF g assms, of "[]"] obtain k where
    "decompress_loop cd C ?s [] =
       decompress_loop cd C (?s\<lparr>rest := bytes_of_u32 w @ payload, gcount := k\<rparr>) (decoded cd C ccs)"
    by auto
  also have "\<dots> = Inl (Chunk_data_truncated, decoded cd C ccs)"
    using short
    by (subst decompress_loop_header[where w = w and bs = payload])
       (auto simp: open_file_def read_def)
  finally show "decompressor_main cd C (write_frames ccs @ bytes_of_u32 w @ payload)
              = Inl (Chunk_data_truncated, decoded cd C ccs)"
    by (simp add: decompressor_main_def)
next
  assume bad: "length (cc_data bad) < 2 ^ 32 \<and> decompressData cd C (cc_data bad) = Inl e"
  let ?s = "open_file (write_frames ccs @ write_frame bad @ after)"
  have g: "\<not> eofbit ?s" "\<not> failbit ?s" "rest ?s = write_frames ccs @ (write_frame bad @ after)"
    by (simp_all add: open_file_def)
  from decompress_loop_frames[OF g assms, of "[]"] obtain k where
    "decompress_loop cd C ?s [] =
       decompress_loop cd C (?s\<lparr>rest := write_frame bad @ after, gcount := k\<rparr>) (decoded cd C ccs)"
    by auto
  also have "\<dots> = Inl (e, decoded cd C ccs)"
    using bad
    by (subst decompress_loop_frame[where cc = bad and bs = after])
       (auto simp: open_file_def)
  finally show "decompressor_main cd C (write_frames ccs @ write_frame bad @ after)
              = Inl (e, decoded cd C ccs)"
    by (simp add: decompressor_main_def)
qed

theorem decompressor_stops_at_first_bad_frame_witness:
  "decompressor_main stored_codec 2 [3, 0, 0, 0, 120, 1, 2, 5, 0, 0, 0, 120, 7]
     = Inl (Chunk_data_truncated, [1, 2])
   \<and> decompressor_main stored_codec 2
       [3, 0, 0, 0, 120, 1, 2, 2, 0, 0, 0, 121, 3, 2, 0, 0, 0, 120, 9]
     = Inl (Decompression_failed, [1, 2])"
proof -
  let ?ccs = "[\<lparr>cc_id = 0, cc_data = [120, 1, 2]\<rparr>]"
  let ?bad = "\<lparr>cc_id = 1, cc_data = [121, 3]\<rparr>"
  have h: "\<forall>cc \<in> set ?ccs. length (cc_data cc) < 2 ^ 32
             \<and> (\<exists>d. decompressData stored_codec 2 (cc_data cc) = Inr d)"
    by (simp add: decompressData_def stored_codec_def)
  have t: "length [120, 7 :: byte] < unat (5 :: 32 word)" by simp
  have b: "length (cc_data ?bad) < 2 ^ 32 \<and> decompressData stored_codec 2 (cc_data ?bad) = Inl Decompression_failed"
    by (simp add: decompressData_def stored_codec_def)
  from decompressor_stops_at_first_bad_frame[OF h, of "[120, 7]" 5 ?bad Decompression_failed "[2, 0, 0, 0, 120, 9]"] t b
  show ?thesis
    by (simp add: write_frames_def write_frame_def bytes_of_u32_def decoded_def
          decompressData_def stored_codec_def)
qed

lemma decompress_loop_partial_length:
  assumes "\<not> eofbit s" "\<not> failbit s" "rest s \<noteq> []" "length (rest s) < 4"
  shows "decompress_loop cd C s out = Inr out"
proof -
  obtain b bs where r: "rest s = b # bs" using assms(3) by (cases "rest s") simp_all
  show ?thesis
    using assms r by (subst decompress_loop.simps) (simp add: peek_def read_def)
qed

lemma partial_length_field_accepted:
  assumes "\<forall>cc \<in> set ccs. length (cc_data cc) < 2 ^ 32 \<and> (\<exists>d. decompressData cd C (cc_data cc) = Inr d)"
    and "bs \<noteq> []" "length bs < 4"
  shows "decompressor_main cd C (write_frames ccs @ bs) = Inr (decoded cd C ccs)"
proof -
  let ?s = "open_file (write_frames ccs @ bs)"
  have g: "\<not> eofbit ?s" "\<not> failbit ?s" "rest ?s = write_frames ccs @ bs"
    by (simp_all add: open_file_def)
  from decompress_loop_frames[OF g assms(1), of "[]"] obtain k where
    "decompress_loop cd C ?s [] = decompress_loop cd C (?s\<lparr>rest := bs, gcount := k\<rparr>) (decoded cd C ccs)"
    by auto
  also have "\<dots> = Inr (decoded cd C ccs)"
    using assms(2,3) by (intro decompress_loop_partial_length) (simp_all add: open_file_def)
  finally show ?thesis by (simp add: decompressor_main_def)
qed

lemma decompressData_error: "decompressData cd C bs = Inl e \<Longrightarrow> e = Decompression_failed"
  by (auto simp: decompressData_def split: if_splits option.splits)

lemma read_keeps_good:
  assumes "\<not> eofbit s" "\<not> failbit s" "read n s = (bs, s')" "gcount s' = n"
  shows "\<not> eofbit s' \<and> \<not> failbit s'"
proof -
  have "s' = snd (read n s)" using assms(3) by simp
  with assms(1,2,4) show ?thesis by (auto simp: read_def split: if_splits)
qed

lemma chunk_size_error_unreachable:
  "\<not> eofbit s \<Longrightarrow> \<not> failbit s \<Longrightarrow> decompress_loop cd C s out \<noteq> Inl (Chunk_size_unreadable, out')"
proof (induction cd C s out rule: decompress_loop.induct)
  case (1 cd C s out)
  obtain c s0 where p: "peek s = (c, s0)" by (cases "peek s")
  obtain hdr s1 where r1: "read 4 s0 = (hdr, s1)" by (cases "read 4 s0")
  obtain cdata s2 where r2: "read (unat (u32_of_bytes hdr)) s1 = (cdata, s2)"
    by (cases "read (unat (u32_of_bytes hdr)) s1")
  show ?case
  proof (cases "c = None")
    case True
    then show ?thesis using p by (subst decompress_loop.simps) simp
  next
    case False
    then have g0: "\<not> eofbit s0" "\<not> failbit s0"
      using p "1.prems" by (auto simp: peek_def split: if_splits list.splits)
    show ?thesis
    proof (cases "gcount s1 = 4")
      case short: False
      then have "eofbit s1" using r1 g0 by (auto simp: read_def split: if_splits)
      then show ?thesis using p r1 False short by (subst decompress_loop.simps) simp
    next
      case True
      then have g1: "\<not> eofbit s1" "\<not> failbit s1"
        using read_keeps_good[OF g0 r1] by simp_all
      show ?thesis
      proof (cases "gcount s2 = unat (u32_of_bytes hdr)")
        case f: False
        then show ?thesis using p r1 r2 False True by (subst decompress_loop.simps) simp
      next
        case t: True
        then have g2: "\<not> eofbit s2" "\<not> failbit s2"
          using read_keeps_good[OF g1 r2] by simp_all
        show ?thesis
        proof (cases "decompressData cd C cdata")
          case (Inl e)
          then have "e = Decompression_failed" by (rule decompressData_error)
          then show ?thesis using p r1 r2 False True t Inl by (subst decompress_loop.simps) simp
        next
          case (Inr d)
          have "decompress_loop cd C s2 (out @ d) \<noteq> Inl (Chunk_size_unreadable, out')"
            using "1.IH"[OF p[symmetric] refl False r1[symmetric] refl _ refl r2[symmetric] refl _ Inr g2] True t
            by simp
          then show ?thesis using p r1 r2 False True t Inr by (subst decompress_loop.simps) simp
        qed
      qed
    qed
  qed
qed

lemma decompressor_never_reports_chunk_size:
  "decompressor_main cd C file \<noteq> Inl (Chunk_size_unreadable, out')"
  unfolding decompressor_main_def
  by (rule chunk_size_error_unreachable) (simp_all add: open_file_def)

text \<open>
  Claim C4 fails on the code. After \<open>in.peek() != EOF\<close>, a read of the length field that
  gets fewer than 4 bytes has met the end of the file, so \<open>in.eof()\<close> holds and the loop
  is left by \<open>break\<close>: a container that ends inside a length field, here the single
  byte 1, or a frame followed by two more bytes, is decoded with exit code 0. The lemmas
  above show it for every such container, and that no container at all reaches the
  error branch of the length field.
\<close>

theorem partial_length_field_is_accepted:
  "decompressor_main cd C [1] = Inr []
   \<and> decompressor_main stored_codec 2 [3, 0, 0, 0, 120, 1, 2, 5, 0] = Inr [1, 2]"
  by (simp add: decompressor_main_def open_file_def peek_def read_def u32_of_bytes_def
        decompressData_def stored_codec_def)

section \<open>The empty file\<close>

lemma CHUNK_SIZE_pos: "0 < CHUNK_SIZE"
  by (simp add: CHUNK_SIZE_def)

lemma run_exit: "pc s = Exit code \<Longrightarrow> workers s = [] \<Longrightarrow> run cd sched s = s"
proof (induction sched)
  case Nil
  then show ?case by simp
next
  case (Cons t sched)
  have "step cd t s = s" using Cons.prems by (cases t) (simp_all add: step_def main_step_def)
  then show ?case using Cons by simp
qed

text \<open>
  Claim C9. On the empty file the compressor returns 0 after phase 1, for every number of
  workers and every schedule: the output file is empty, no pool was made and no task
  queued. The decompressor turns the empty container into the empty file and returns 0.
\<close>

theorem empty_input:
  "compressor_main n CHUNK_SIZE cd sched [] =
     Some \<lparr>pc = Exit 0, workers = [], tasks = [], stop = False, compressed_chunks = [],
           cerr = [], out_file = []\<rparr>
   \<and> decompressor_main cd CHUNK_SIZE [] = Inr []"
proof -
  have "read_chunks CHUNK_SIZE [] = Some []"
    using read_chunks_eq[OF CHUNK_SIZE_pos, of "[]"] CHUNK_SIZE_pos by simp
  moreover have "run cd sched (start n []) = start n []"
    by (rule run_exit[where code = 0]) (simp_all add: start_def)
  ultimately have "compressor_main n CHUNK_SIZE cd sched [] = Some (start n [])"
    by (simp add: compressor_main_def)
  moreover have "decompressor_main cd CHUNK_SIZE [] = Inr []"
    by (simp add: decompressor_main_def open_file_def peek_def)
  ultimately show ?thesis by (simp add: start_def)
qed

section \<open>The length of a compressed chunk fits the length field\<close>

lemma compressData_length:
  assumes "respects_capacity cd" "compressData cd input = Inr output"
  shows "length output \<le> compressBound cd (length input)"
  using assms by (auto simp: compressData_def respects_capacity_def split: if_splits option.splits)

lemma zlib_bound_mono: "m \<le> n \<Longrightarrow> zlib_bound m \<le> zlib_bound n"
  unfolding zlib_bound_def by (intro add_mono div_le_mono) simp_all

lemma zlib_bound_CHUNK_SIZE: "zlib_bound CHUNK_SIZE = 1048909"
  by (simp add: zlib_bound_def CHUNK_SIZE_def)

text \<open>
  Claim C10. Let zlib's \<open>compress\<close> keep within the buffer it is given and let
  \<open>compressBound\<close> be at most zlib's formula. Then what \<open>compressData\<close> makes of at
  most \<open>CHUNK_SIZE\<close> bytes is shorter than \<open>2^32\<close> bytes, the \<open>uint32_t\<close> length
  field holds its exact length, the frame is the field followed by the whole payload, and
  the reader gets the length and the payload back from the frame.
\<close>

theorem frame_length_fits:
  assumes "respects_capacity cd" and "\<forall>n. compressBound cd n \<le> zlib_bound n"
    and "length input \<le> CHUNK_SIZE" and "compressData cd input = Inr output"
  shows "length output < 2 ^ 32
     \<and> unat (of_nat (length output) :: 32 word) = length output
     \<and> write_frame \<lparr>cc_id = i, cc_data = output\<rparr> = bytes_of_u32 (of_nat (length output)) @ output
     \<and> (case read 4 (open_file (write_frame \<lparr>cc_id = i, cc_data = output\<rparr> @ bs)) of
          (hdr, s1) \<Rightarrow> unat (u32_of_bytes hdr) = length output
             \<and> (case read (unat (u32_of_bytes hdr)) s1 of
                  (compressedData, s2) \<Rightarrow> compressedData = output \<and> rest s2 = bs))"
proof -
  have "length output \<le> compressBound cd (length input)"
    by (rule compressData_length[OF assms(1,4)])
  also have "\<dots> \<le> zlib_bound (length input)" using assms(2) by simp
  also have "\<dots> \<le> zlib_bound CHUNK_SIZE" by (rule zlib_bound_mono[OF assms(3)])
  finally have "length output \<le> 1048909" by (simp add: zlib_bound_CHUNK_SIZE)
  then have lt: "length output < 2 ^ 32" by simp
  then have u: "unat (of_nat (length output) :: 32 word) = length output"
    by (simp add: unat_of_nat)
  have wf: "write_frame \<lparr>cc_id = i, cc_data = output\<rparr> = bytes_of_u32 (of_nat (length output)) @ output"
    using lt by (simp add: write_frame_fits)
  have rd: "read 4 (open_file (bytes_of_u32 (of_nat (length output)) @ output @ bs))
      = (bytes_of_u32 (of_nat (length output)),
         \<lparr>rest = output @ bs, gcount = 4, eofbit = False, failbit = False\<rparr>)"
    by (simp add: read_def open_file_def length_bytes_of_u32)
  show ?thesis
    unfolding wf append_assoc rd using lt u by (simp add: u32_roundtrip read_def)
qed

theorem frame_length_fits_witness:
  "respects_capacity stored_codec \<and> length [1, 2, 3 :: byte] \<le> CHUNK_SIZE
   \<and> compressData stored_codec [1, 2, 3] = Inr [120, 1, 2, 3]
   \<and> write_frame \<lparr>cc_id = 0, cc_data = [120, 1, 2, 3]\<rparr> = [4, 0, 0, 0, 120, 1, 2, 3]"
proof -
  have 1: "respects_capacity stored_codec"
    by (simp add: respects_capacity_def stored_codec_def)
  have 2: "\<forall>n. compressBound stored_codec n \<le> zlib_bound n"
    by (simp add: stored_codec_def)
  have 3: "length [1, 2, 3 :: byte] \<le> CHUNK_SIZE" by (simp add: CHUNK_SIZE_def)
  have 4: "compressData stored_codec [1, 2, 3] = Inr [120, 1, 2, 3]"
    by (simp add: compressData_def stored_codec_def zlib_bound_def)
  from frame_length_fits[OF 1 2 3 4, of 0 "[]"]
  have "write_frame \<lparr>cc_id = 0, cc_data = [120, 1, 2, 3]\<rparr>
      = bytes_of_u32 (of_nat (length [120, 1, 2, 3 :: byte])) @ [120, 1, 2, 3]"
    by simp
  then have "write_frame \<lparr>cc_id = 0, cc_data = [120, 1, 2, 3]\<rparr> = [4, 0, 0, 0, 120, 1, 2, 3]"
    by (simp add: bytes_of_u32_def)
  with 1 3 4 show ?thesis by simp
qed

section \<open>The invariant of the pool\<close>

lemma results_of_simps [simp]:
  "results_of cd {#} = {#}"
  "results_of cd (A + B) = results_of cd A + results_of cd B"
  "results_of cd (add_mset c A) = mset (task_result cd c) + results_of cd A"
  by (simp_all add: results_of_def)

lemma logs_of_simps [simp]:
  "logs_of cd {#} = {#}"
  "logs_of cd (A + B) = logs_of cd A + logs_of cd B"
  "logs_of cd (add_mset c A) = mset (task_log cd c) + logs_of cd A"
  by (simp_all add: logs_of_def)

lemma results_of_mset: "results_of cd (mset xs) = mset (task_results cd xs)"
  by (induction xs) (simp_all add: task_results_def)

lemma logs_of_mset: "logs_of cd (mset xs) = mset (task_logs cd xs)"
  by (induction xs) (simp_all add: task_logs_def)

lemma running_update:
  "i < length ws \<Longrightarrow>
     mset (running (ws[i := w])) + mset (held (ws ! i)) = mset (running ws) + mset (held w)"
proof (induction ws arbitrary: i)
  case Nil
  then show ?case by simp
next
  case (Cons a ws)
  show ?case
  proof (cases i)
    case 0
    then show ?thesis by (simp add: running_def)
  next
    case (Suc j)
    with Cons.prems have "j < length ws" by simp
    from Cons.IH[OF this] show ?thesis using Suc by (simp add: running_def)
  qed
qed

lemma running_update_idle:
  "i < length ws \<Longrightarrow> held (ws ! i) = [] \<Longrightarrow> held w = [] \<Longrightarrow>
     mset (running (ws[i := w])) = mset (running ws)"
  using running_update[of i ws w] by simp

lemma running_update_take:
  "i < length ws \<Longrightarrow> ws ! i = Waiting \<Longrightarrow>
     mset (running (ws[i := Running c])) = add_mset c (mset (running ws))"
  using running_update[of i ws "Running c"] by (simp add: held_def)

lemma running_update_done:
  "i < length ws \<Longrightarrow> ws ! i = Running c \<Longrightarrow>
     add_mset c (mset (running (ws[i := Waiting]))) = mset (running ws)"
  using running_update[of i ws Waiting] by (simp add: held_def)

lemma take_update_other:
  assumes "take k ws = replicate k Exited" "i < length ws" "ws ! i \<noteq> Exited"
  shows "take k (ws[i := w]) = replicate k Exited"
proof -
  have "k \<le> i"
  proof (rule ccontr)
    assume "\<not> k \<le> i"
    then have "i < k" by simp
    then have "take k ws ! i = ws ! i" by simp
    moreover have "replicate k Exited ! i = Exited" using \<open>i < k\<close> by simp
    ultimately show False using assms by simp
  qed
  then show ?thesis using assms(1) by simp
qed

lemma all_exited_nth:
  "ws = replicate n Exited \<Longrightarrow> i < length ws \<Longrightarrow> ws ! i = Exited"
  by (metis length_replicate nth_replicate)

lemma exited_after_update:
  "Exited \<in> set (ws[i := w]) \<Longrightarrow> w \<noteq> Exited \<Longrightarrow> Exited \<in> set ws"
  using set_update_subset_insert[of ws i w] by auto

lemma pool_inv_start: "chunks \<noteq> [] \<Longrightarrow> pool_inv cd n chunks (start n chunks)"
  by (simp add: pool_inv_def start_def remaining_def pending_def running_def held_def)

lemma pool_inv_main_step:
  assumes "pool_inv cd n chunks s"
  shows "pool_inv cd n chunks (main_step s)"
proof (cases "pc s")
  case (Submit cs)
  with assms have ns: "\<not> stop s" by (simp add: pool_inv_def)
  show ?thesis
  proof (cases cs)
    case Nil
    with Submit ns assms show ?thesis
      by (auto simp: pool_inv_def main_step_def remaining_def pending_def)
  next
    case (Cons c cs')
    with Submit ns assms show ?thesis
      by (auto simp: pool_inv_def main_step_def enqueue_def remaining_def pending_def)
  qed
next
  case (Join k)
  show ?thesis
  proof (cases "k < length (workers s)")
    case True
    show ?thesis
    proof (cases "workers s ! k = Exited")
      case ex: True
      have "take (Suc k) (workers s) = replicate (Suc k) Exited"
        if "take k (workers s) = replicate k Exited"
        using that True ex by (simp add: take_Suc_conv_app_nth replicate_append_same)
      with Join True ex assms show ?thesis
        by (auto simp: pool_inv_def main_step_def remaining_def pending_def)
    next
      case False
      with Join True assms show ?thesis by (simp add: main_step_def)
    qed
  next
    case False
    with Join assms show ?thesis
      by (auto simp: pool_inv_def main_step_def remaining_def pending_def)
  qed
next
  case Write_output
  with assms show ?thesis
    by (auto simp: pool_inv_def main_step_def remaining_def pending_def sort_by_id_def Let_def)
next
  case (Exit code)
  with assms show ?thesis by (simp add: main_step_def)
qed

lemma pool_inv_worker_step:
  assumes inv: "pool_inv cd n chunks s" and i: "i < length (workers s)"
  shows "pool_inv cd n chunks (worker_step cd i s)"
proof (cases "workers s ! i")
  case Waiting
  then have ne: "workers s ! i \<noteq> Exited" by simp
  have not_all: "workers s \<noteq> replicate n Exited"
    using all_exited_nth[OF _ i] Waiting by auto
  show ?thesis
  proof (cases "stop s \<and> tasks s = []")
    case True
    have r: "mset (running ((workers s)[i := Exited])) = mset (running (workers s))"
      using i Waiting by (intro running_update_idle) (simp_all add: held_def)
    have w: "worker_step cd i s = s\<lparr>workers := (workers s)[i := Exited]\<rparr>"
      using Waiting True by (simp add: worker_step_def)
    show ?thesis
      using inv True not_all take_update_other[OF _ i ne, of _ Exited]
      unfolding w by (auto simp: pool_inv_def remaining_def r split: main_pc.splits)
  next
    case False
    show ?thesis
    proof (cases "tasks s")
      case Nil
      with False Waiting inv show ?thesis by (simp add: worker_step_def)
    next
      case (Cons task ts)
      have r: "mset (running ((workers s)[i := Running task])) = add_mset task (mset (running (workers s)))"
        using i Waiting by (rule running_update_take)
      have w: "worker_step cd i s = s\<lparr>tasks := ts, workers := (workers s)[i := Running task]\<rparr>"
        using Waiting Cons by (simp add: worker_step_def)
      have noex: "Exited \<notin> set ((workers s)[i := Running task])"
      proof
        assume "Exited \<in> set ((workers s)[i := Running task])"
        then have "Exited \<in> set (workers s)" by (rule exited_after_update) simp
        with inv Cons show False by (simp add: pool_inv_def)
      qed
      show ?thesis
        using inv Cons not_all noex take_update_other[OF _ i ne, of _ "Running task"]
        unfolding w by (auto simp: pool_inv_def remaining_def r split: main_pc.splits)
    qed
  qed
next
  case (Running chunk)
  then have ne: "workers s ! i \<noteq> Exited" by simp
  have not_all: "workers s \<noteq> replicate n Exited"
    using all_exited_nth[OF _ i] Running by auto
  have r: "add_mset chunk (mset (running ((workers s)[i := Waiting]))) = mset (running (workers s))"
    using i Running by (rule running_update_done)
  have rem: "remaining s = add_mset chunk (remaining (s\<lparr>workers := (workers s)[i := Waiting]\<rparr>))"
    by (simp add: remaining_def r[symmetric])
  have ex: "Exited \<in> set (workers s)" if "Exited \<in> set ((workers s)[i := Waiting])"
    using that by (rule exited_after_update) simp
  show ?thesis
  proof (cases "compressData cd (chunk_data chunk)")
    case (Inl e)
    have w: "worker_step cd i s = s\<lparr>cerr := cerr s @ [e], workers := (workers s)[i := Waiting]\<rparr>"
      using Running Inl by (simp add: worker_step_def)
    have tr: "task_result cd chunk = []" "task_log cd chunk = [e]"
      using Inl by (simp_all add: task_result_def task_log_def)
    have rem': "remaining (s\<lparr>cerr := cerr s @ [e], workers := (workers s)[i := Waiting]\<rparr>)
        = remaining (s\<lparr>workers := (workers s)[i := Waiting]\<rparr>)"
      by (simp add: remaining_def)
    show ?thesis
      using inv not_all ex take_update_other[OF _ i ne, of _ Waiting]
      unfolding w by (auto simp: pool_inv_def rem rem' tr split: main_pc.splits)
  next
    case (Inr d)
    let ?cc = "\<lparr>cc_id = chunk_id chunk, cc_data = d\<rparr>"
    have w: "worker_step cd i s =
        s\<lparr>compressed_chunks := compressed_chunks s @ [?cc], workers := (workers s)[i := Waiting]\<rparr>"
      using Running Inr by (simp add: worker_step_def)
    have tr: "task_result cd chunk = [?cc]" "task_log cd chunk = []"
      using Inr by (simp_all add: task_result_def task_log_def)
    have rem': "remaining (s\<lparr>compressed_chunks := compressed_chunks s @ [?cc], workers := (workers s)[i := Waiting]\<rparr>)
        = remaining (s\<lparr>workers := (workers s)[i := Waiting]\<rparr>)"
      by (simp add: remaining_def)
    show ?thesis
      using inv not_all ex take_update_other[OF _ i ne, of _ Waiting]
      unfolding w by (auto simp: pool_inv_def rem rem' tr split: main_pc.splits)
  qed
next
  case Exited
  with inv show ?thesis by (simp add: worker_step_def)
qed

lemma pool_inv_step: "pool_inv cd n chunks s \<Longrightarrow> pool_inv cd n chunks (step cd t s)"
  by (cases t) (simp_all add: step_def pool_inv_main_step pool_inv_worker_step)

lemma pool_inv_run: "pool_inv cd n chunks s \<Longrightarrow> pool_inv cd n chunks (run cd sched s)"
  by (induction sched arbitrary: s) (simp_all add: pool_inv_step)

section \<open>When shutdown has returned\<close>

lemma running_all_exited: "running (replicate n Exited) = []"
  by (simp add: running_def held_def)

lemma after_shutdown:
  assumes inv: "pool_inv cd n chunks s" and n: "0 < n" and ret: "shutdown_returned s"
  shows "workers s = replicate n Exited" "tasks s = []" "stop s" "remaining s = {#}"
    "mset (compressed_chunks s) = mset (task_results cd chunks)"
    "mset (cerr s) = mset (task_logs cd chunks)"
proof -
  show ws: "workers s = replicate n Exited"
    using inv ret by (auto simp: pool_inv_def shutdown_returned_def split: main_pc.splits)
  then have "Exited \<in> set (workers s)" using n by simp
  then show st: "tasks s = []" "stop s" using inv unfolding pool_inv_def by blast+
  have "pending (pc s) = []"
    using ret by (auto simp: shutdown_returned_def pending_def split: main_pc.splits)
  then show rem: "remaining s = {#}"
    using ws st by (simp add: remaining_def running_all_exited)
  show "mset (compressed_chunks s) = mset (task_results cd chunks)"
    using inv rem by (simp add: pool_inv_def results_of_mset)
  show "mset (cerr s) = mset (task_logs cd chunks)"
    using inv rem by (simp add: pool_inv_def logs_of_mset)
qed

section \<open>Every run can be completed\<close>

lemma length_running_update:
  "i < length ws \<Longrightarrow>
     length (running (ws[i := w])) + length (held (ws ! i)) = length (running ws) + length (held w)"
  using arg_cong[OF running_update[of i ws w], of size] by simp

lemma length_filter_update:
  "i < length ws \<Longrightarrow>
     length (filter P (ws[i := w])) + (if P (ws ! i) then 1 else 0)
       = length (filter P ws) + (if P w then 1 else 0)"
proof (induction ws arbitrary: i)
  case Nil
  then show ?case by simp
next
  case (Cons a ws)
  show ?case
  proof (cases i)
    case 0
    then show ?thesis by simp
  next
    case (Suc j)
    with Cons.prems have "j < length ws" by simp
    from Cons.IH[OF this] show ?thesis using Suc by simp
  qed
qed

lemma progress:
  assumes inv: "pool_inv cd n chunks s" and run: "\<not> (\<exists>code. pc s = Exit code)"
  shows "\<exists>t. steps_left (step cd t s) < steps_left s"
proof (cases "pc s")
  case (Submit cs)
  with inv have ns: "\<not> stop s" by (simp add: pool_inv_def)
  have "steps_left (step cd Main s) < steps_left s"
    using Submit ns
    by (cases cs) (simp_all add: step_def main_step_def enqueue_def steps_left_def pending_def)
  then show ?thesis ..
next
  case (Join k)
  with inv have st: "stop s" and k: "k \<le> length (workers s)" by (simp_all add: pool_inv_def)
  show ?thesis
  proof (cases "k < length (workers s)")
    case False
    have "steps_left (step cd Main s) < steps_left s"
      using Join False by (simp add: step_def main_step_def steps_left_def pending_def)
    then show ?thesis ..
  next
    case True
    note lr = length_running_update[OF True]
    note lf = length_filter_update[OF True, of "\<lambda>w. w \<noteq> Exited"]
    show ?thesis
    proof (cases "workers s ! k")
      case Exited
      have "steps_left (step cd Main s) < steps_left s"
        using Join True Exited by (simp add: step_def main_step_def steps_left_def pending_def)
      then show ?thesis ..
    next
      case Waiting
      have "steps_left (step cd (Worker k) s) < steps_left s"
      proof (cases "tasks s")
        case Nil
        then show ?thesis
          using Join True Waiting st lr[of Exited] lf[of Exited]
          by (simp add: step_def worker_step_def steps_left_def pending_def held_def)
      next
        case (Cons task ts)
        then show ?thesis
          using Join True Waiting st lr[of "Running task"] lf[of "Running task"]
          by (simp add: step_def worker_step_def steps_left_def pending_def held_def)
      qed
      then show ?thesis ..
    next
      case (Running chunk)
      have "steps_left (step cd (Worker k) s) < steps_left s"
        using Join True Running lr[of Waiting] lf[of Waiting]
        by (cases "compressData cd (chunk_data chunk)")
           (simp_all add: step_def worker_step_def steps_left_def pending_def held_def)
      then show ?thesis ..
    qed
  qed
next
  case Write_output
  have "steps_left (step cd Main s) < steps_left s"
    using Write_output by (simp add: step_def main_step_def steps_left_def pending_def Let_def)
  then show ?thesis ..
next
  case (Exit code)
  with run show ?thesis by simp
qed

lemma run_completes:
  "pool_inv cd n chunks s \<Longrightarrow> \<exists>sched. pc (run cd sched s) = Exit 0"
proof (induction "steps_left s" arbitrary: s rule: less_induct)
  case less
  show ?case
  proof (cases "\<exists>code. pc s = Exit code")
    case True
    then obtain code where "pc s = Exit code" ..
    with less.prems have "pc (run cd [] s) = Exit 0" by (simp add: pool_inv_def)
    then show ?thesis ..
  next
    case False
    from progress[OF less.prems False] obtain t where "steps_left (step cd t s) < steps_left s" ..
    from less.hyps[OF this pool_inv_step[OF less.prems]]
    obtain sched where "pc (run cd sched (step cd t s)) = Exit 0" ..
    then have "pc (run cd (t # sched) s) = Exit 0" by simp
    then show ?thesis ..
  qed
qed

section \<open>The sorted results\<close>

lemma sorted_by_id_unique:
  assumes "mset xs = mset ys" "sorted (map cc_id xs)" "sorted (map cc_id ys)"
    and "distinct (map cc_id ys)"
  shows "xs = ys"
proof -
  have m: "mset (map cc_id xs) = mset (map cc_id ys)" using assms(1) by simp
  then have dx: "distinct (map cc_id xs)" using assms(4) by (metis mset_eq_imp_distinct_iff)
  have "set (map cc_id xs) = set (map cc_id ys)" using m by (rule mset_eq_setD)
  then have eq: "map cc_id xs = map cc_id ys"
    using assms(2,3,4) dx by (intro sorted_distinct_set_unique) simp_all
  have "set xs = set ys" using assms(1) by (rule mset_eq_setD)
  then have "inj_on cc_id (set xs \<union> set ys)" using dx by (simp add: distinct_map)
  with eq show ?thesis by (rule map_inj_on)
qed

lemma ids_task_results:
  "map cc_id (task_results cd chunks)
     = map chunk_id (filter (\<lambda>c. \<not> isl (compressData cd (chunk_data c))) chunks)"
  by (induction chunks) (auto simp: task_results_def task_result_def split: sum.splits)

lemma sorted_ids_task_results:
  "sorted (map chunk_id chunks) \<Longrightarrow> sorted (map cc_id (task_results cd chunks))"
  by (simp add: ids_task_results sorted_filter)

lemma distinct_ids_task_results:
  "distinct (map chunk_id chunks) \<Longrightarrow> distinct (map cc_id (task_results cd chunks))"
  by (simp add: ids_task_results distinct_map_filter)

lemma final_state:
  assumes inv: "pool_inv cd n chunks s" and n: "0 < n" and ex: "pc s = Exit code"
    and srt: "sorted (map chunk_id chunks)" and dst: "distinct (map chunk_id chunks)"
  shows "code = 0" "compressed_chunks s = task_results cd chunks"
    "out_file s = write_frames (task_results cd chunks)"
proof -
  have ret: "shutdown_returned s" using ex by (simp add: shutdown_returned_def)
  show "code = 0" using inv ex by (simp add: pool_inv_def)
  have "sorted (map cc_id (compressed_chunks s))" using inv ex by (simp add: pool_inv_def)
  then show cc: "compressed_chunks s = task_results cd chunks"
    using after_shutdown(5)[OF inv n ret] sorted_ids_task_results[OF srt]
      distinct_ids_task_results[OF dst]
    by (intro sorted_by_id_unique)
  show "out_file s = write_frames (task_results cd chunks)"
    using inv ex cc by (simp add: pool_inv_def)
qed

section \<open>Runs of the compressor\<close>

lemma distinct_submset:
  assumes "mset xs \<subseteq># mset ys" "distinct ys"
  shows "distinct xs"
proof -
  from assms(1) obtain Z where "mset ys = mset xs + Z"
    by (auto simp: mset_subset_eq_exists_conv)
  moreover obtain zs where "mset zs = Z" using ex_mset by blast
  ultimately have "mset ys = mset (xs @ zs)" by simp
  then have "distinct (xs @ zs)" using assms(2) by (metis mset_eq_imp_distinct_iff)
  then show ?thesis by simp
qed

lemma run_start_empty: "run cd sched (start n []) = start n []"
  by (rule run_exit[where code = 0]) (simp_all add: start_def)

lemma pool_inv_reach:
  "chunks \<noteq> [] \<Longrightarrow> pool_inv cd n chunks (run cd sched (start n chunks))"
  by (intro pool_inv_run pool_inv_start)

lemma results_so_far:
  assumes "pool_inv cd n chunks s"
  shows "mset (compressed_chunks s) \<subseteq># mset (task_results cd chunks)"
proof -
  have "mset (compressed_chunks s) + results_of cd (remaining s) = mset (task_results cd chunks)"
    using assms by (simp add: pool_inv_def results_of_mset)
  then show ?thesis by (metis mset_subset_eq_add_left)
qed

lemma ids_so_far_distinct:
  assumes "pool_inv cd n chunks s" "distinct (map chunk_id chunks)"
  shows "distinct (map cc_id (compressed_chunks s))"
proof -
  have "image_mset cc_id (mset (compressed_chunks s))
          \<subseteq># image_mset cc_id (mset (task_results cd chunks))"
    by (rule image_mset_subseteq_mono[OF results_so_far[OF assms(1)]])
  then have "mset (map cc_id (compressed_chunks s)) \<subseteq># mset (map cc_id (task_results cd chunks))"
    by simp
  then show ?thesis
    by (rule distinct_submset) (rule distinct_ids_task_results[OF assms(2)])
qed

lemma task_results_no_failure:
  "\<forall>c \<in> set chunks. \<exists>d. compressData cd (chunk_data c) = Inr d \<Longrightarrow>
     map cc_id (task_results cd chunks) = map chunk_id chunks"
  by (induction chunks) (auto simp: task_results_def task_result_def)

lemma task_results_filter:
  "task_results cd (filter (\<lambda>c. \<not> isl (compressData cd (chunk_data c))) chunks)
     = task_results cd chunks"
  by (induction chunks) (auto simp: task_results_def task_result_def split: sum.splits)

lemma length_task_results:
  "length (task_results cd chunks)
     = length (filter (\<lambda>c. \<not> isl (compressData cd (chunk_data c))) chunks)"
  using arg_cong[OF ids_task_results[of cd chunks], of length] by simp

lemma length_task_logs:
  "length (task_logs cd chunks)
     = length (filter (\<lambda>c. isl (compressData cd (chunk_data c))) chunks)"
  by (induction chunks) (auto simp: task_logs_def task_log_def split: sum.splits)

lemma task_logs_member:
  "c \<in> set chunks \<Longrightarrow> compressData cd (chunk_data c) = Inl e \<Longrightarrow> e \<in> set (task_logs cd chunks)"
  by (induction chunks) (auto simp: task_logs_def task_log_def split: sum.splits)

lemma final_of_run:
  assumes "0 < C" "0 < n" "read_chunks C file = Some chunks"
    and "s = run cd sched (start n chunks)" "pc s = Exit code"
  shows "code = 0" "compressed_chunks s = task_results cd chunks"
    "out_file s = write_frames (task_results cd chunks)"
    "mset (cerr s) = mset (task_logs cd chunks)"
proof -
  note ids = read_chunks_facts(1)[OF assms(1,3)]
  have srt: "sorted (map chunk_id chunks)" and dst: "distinct (map chunk_id chunks)"
    unfolding ids by simp_all
  have "code = 0 \<and> compressed_chunks s = task_results cd chunks
    \<and> out_file s = write_frames (task_results cd chunks)
    \<and> mset (cerr s) = mset (task_logs cd chunks)"
  proof (cases "chunks = []")
    case True
    then have "s = start n []" using assms(4) by (simp add: run_start_empty)
    then show ?thesis
      using True assms(5) by (simp add: start_def task_results_def task_logs_def write_frames_def)
  next
    case False
    then have inv: "pool_inv cd n chunks s" unfolding assms(4) by (rule pool_inv_reach)
    have ret: "shutdown_returned s" using assms(5) by (simp add: shutdown_returned_def)
    from final_state[OF inv assms(2,5) srt dst] after_shutdown(6)[OF inv assms(2) ret]
    show ?thesis by simp
  qed
  then show "code = 0" "compressed_chunks s = task_results cd chunks"
    "out_file s = write_frames (task_results cd chunks)"
    "mset (cerr s) = mset (task_logs cd chunks)" by simp_all
qed

lemma run_can_complete:
  "\<exists>sched'. pc (run cd sched' (run cd sched (start n chunks))) = Exit 0"
proof (cases "chunks = []")
  case True
  have "pc (run cd [] (run cd sched (start n []))) = Exit 0"
    unfolding run_start_empty by (simp add: start_def)
  with True have "pc (run cd [] (run cd sched (start n chunks))) = Exit 0" by simp
  then show ?thesis ..
next
  case False
  then have "pool_inv cd n chunks (run cd sched (start n chunks))" by (rule pool_inv_reach)
  then show ?thesis by (rule run_completes)
qed

lemma decompressor_main_frames:
  assumes "\<forall>cc \<in> set ccs. length (cc_data cc) < 2 ^ 32 \<and> (\<exists>d. decompressData cd C (cc_data cc) = Inr d)"
  shows "decompressor_main cd C (write_frames ccs) = Inr (decoded cd C ccs)"
proof -
  let ?s = "open_file (write_frames ccs)"
  have g: "\<not> eofbit ?s" "\<not> failbit ?s" "rest ?s = write_frames ccs @ []"
    by (simp_all add: open_file_def)
  from decompress_loop_frames[OF g assms, of "[]"] obtain k where
    "decompress_loop cd C ?s [] = decompress_loop cd C (?s\<lparr>rest := [], gcount := k\<rparr>) (decoded cd C ccs)"
    by auto
  also have "\<dots> = Inr (decoded cd C ccs)"
    by (rule decompress_loop_end) (simp_all add: open_file_def)
  finally show ?thesis by (simp add: decompressor_main_def)
qed

lemma wrappers_roundtrip:
  assumes "codec_roundtrip cd C" "length x \<le> C"
  shows "\<exists>y. compressData cd x = Inr y \<and> decompressData cd C y = Inr x"
proof (cases "x = []")
  case True
  then show ?thesis by (simp add: compressData_def decompressData_def)
next
  case False
  with assms obtain y where "zcompress cd (compressBound cd (length x)) x = Some y" "y \<noteq> []"
    "zuncompress cd C y = Some x"
    unfolding codec_roundtrip_def by blast
  with False show ?thesis by (simp add: compressData_def decompressData_def)
qed

lemma task_results_roundtrip:
  assumes rt: "codec_roundtrip cd C" and cap: "respects_capacity cd"
    and bound: "\<forall>k \<le> C. compressBound cd k < 2 ^ 32"
  shows "\<forall>c \<in> set chunks. length (chunk_data c) \<le> C \<Longrightarrow>
     (\<forall>cc \<in> set (task_results cd chunks).
         length (cc_data cc) < 2 ^ 32 \<and> (\<exists>d. decompressData cd C (cc_data cc) = Inr d))
     \<and> decoded cd C (task_results cd chunks) = concat (map chunk_data chunks)"
proof (induction chunks)
  case Nil
  then show ?case by (simp add: task_results_def decoded_def)
next
  case (Cons c chunks)
  then have len: "length (chunk_data c) \<le> C" by simp
  from wrappers_roundtrip[OF rt len] obtain y where y: "compressData cd (chunk_data c) = Inr y"
    "decompressData cd C y = Inr (chunk_data c)"
    by blast
  have "length y \<le> compressBound cd (length (chunk_data c))"
    by (rule compressData_length[OF cap y(1)])
  also have "\<dots> < 2 ^ 32" using bound len by simp
  finally have ly: "length y < 2 ^ 32" .
  have tr: "task_results cd (c # chunks) = \<lparr>cc_id = chunk_id c, cc_data = y\<rparr> # task_results cd chunks"
    using y(1) by (simp add: task_results_def task_result_def)
  from Cons have IH: "(\<forall>cc \<in> set (task_results cd chunks).
         length (cc_data cc) < 2 ^ 32 \<and> (\<exists>d. decompressData cd C (cc_data cc) = Inr d))"
     "decoded cd C (task_results cd chunks) = concat (map chunk_data chunks)" by simp_all
  show ?case
    unfolding tr using IH ly y(2) by (simp add: decoded_def)
qed

section \<open>Concrete runs\<close>

lemmas run_eval = start_def step_def main_step_def worker_step_def enqueue_def compressData_def
  stored_codec_def picky_codec_def zlib_bound_def sort_by_id_def write_frames_def write_frame_def
  bytes_of_u32_def

lemma replicate_2: "replicate 2 x = [x, x]"
  by (simp add: numeral_2_eq_2)

lemma read_chunks_example:
  "read_chunks 2 [1, 2, 3, 4, 5] =
     Some [\<lparr>chunk_id = 0, chunk_data = [1, 2]\<rparr>, \<lparr>chunk_id = 1, chunk_data = [3, 4]\<rparr>,
           \<lparr>chunk_id = 2, chunk_data = [5]\<rparr>]"
  by code_simp

lemma read_chunks_example_255:
  "read_chunks 2 [1, 2, 255, 4, 5] =
     Some [\<lparr>chunk_id = 0, chunk_data = [1, 2]\<rparr>, \<lparr>chunk_id = 1, chunk_data = [255, 4]\<rparr>,
           \<lparr>chunk_id = 2, chunk_data = [5]\<rparr>]"
  by code_simp

lemma run_two_workers:
  "run stored_codec schedule_two_workers
     (start 2 [\<lparr>chunk_id = 0, chunk_data = [1, 2]\<rparr>, \<lparr>chunk_id = 1, chunk_data = [3, 4]\<rparr>,
               \<lparr>chunk_id = 2, chunk_data = [5]\<rparr>]) =
   \<lparr>pc = Exit 0, workers = [Exited, Exited], tasks = [], stop = True,
      compressed_chunks =
        [\<lparr>cc_id = 0, cc_data = [120, 1, 2]\<rparr>, \<lparr>cc_id = 1, cc_data = [120, 3, 4]\<rparr>,
         \<lparr>cc_id = 2, cc_data = [120, 5]\<rparr>],
      cerr = [],
      out_file = [3, 0, 0, 0, 120, 1, 2, 3, 0, 0, 0, 120, 3, 4, 2, 0, 0, 0, 120, 5]\<rparr>"
  by (simp add: schedule_two_workers_def run_eval replicate_2)

lemma run_two_workers_before_sort:
  "run stored_codec (take 15 schedule_two_workers)
     (start 2 [\<lparr>chunk_id = 0, chunk_data = [1, 2]\<rparr>, \<lparr>chunk_id = 1, chunk_data = [3, 4]\<rparr>,
               \<lparr>chunk_id = 2, chunk_data = [5]\<rparr>]) =
   \<lparr>pc = Write_output, workers = [Exited, Exited], tasks = [], stop = True,
      compressed_chunks =
        [\<lparr>cc_id = 1, cc_data = [120, 3, 4]\<rparr>, \<lparr>cc_id = 0, cc_data = [120, 1, 2]\<rparr>,
         \<lparr>cc_id = 2, cc_data = [120, 5]\<rparr>],
      cerr = [], out_file = []\<rparr>"
  by (simp add: schedule_two_workers_def run_eval replicate_2)

lemma run_one_worker:
  "run stored_codec schedule_one_worker
     (start 1 [\<lparr>chunk_id = 0, chunk_data = [1, 2]\<rparr>, \<lparr>chunk_id = 1, chunk_data = [3, 4]\<rparr>,
               \<lparr>chunk_id = 2, chunk_data = [5]\<rparr>]) =
   \<lparr>pc = Exit 0, workers = [Exited], tasks = [], stop = True,
      compressed_chunks =
        [\<lparr>cc_id = 0, cc_data = [120, 1, 2]\<rparr>, \<lparr>cc_id = 1, cc_data = [120, 3, 4]\<rparr>,
         \<lparr>cc_id = 2, cc_data = [120, 5]\<rparr>],
      cerr = [],
      out_file = [3, 0, 0, 0, 120, 1, 2, 3, 0, 0, 0, 120, 3, 4, 2, 0, 0, 0, 120, 5]\<rparr>"
  by (simp add: schedule_one_worker_def run_eval)

lemma run_picky:
  "run picky_codec schedule_two_workers
     (start 2 [\<lparr>chunk_id = 0, chunk_data = [1, 2]\<rparr>, \<lparr>chunk_id = 1, chunk_data = [255, 4]\<rparr>,
               \<lparr>chunk_id = 2, chunk_data = [5]\<rparr>]) =
   \<lparr>pc = Exit 0, workers = [Exited, Exited], tasks = [], stop = True,
      compressed_chunks =
        [\<lparr>cc_id = 0, cc_data = [120, 1, 2]\<rparr>, \<lparr>cc_id = 2, cc_data = [120, 5]\<rparr>],
      cerr = [Compression_failed],
      out_file = [3, 0, 0, 0, 120, 1, 2, 2, 0, 0, 0, 120, 5]\<rparr>"
  by (simp add: schedule_two_workers_def run_eval replicate_2)

lemma stored_codec_roundtrip: "codec_roundtrip stored_codec C"
  by (simp add: codec_roundtrip_def stored_codec_def zlib_bound_def)

lemma stored_codec_capacity: "respects_capacity stored_codec"
  by (simp add: respects_capacity_def stored_codec_def)

lemma stored_codec_bound: "\<forall>k \<le> 2. compressBound stored_codec k < 2 ^ 32"
proof (intro allI impI)
  fix k :: nat assume "k \<le> 2"
  then have "zlib_bound k \<le> zlib_bound 2" by (rule zlib_bound_mono)
  also have "\<dots> = 15" by (simp add: zlib_bound_def)
  finally show "compressBound stored_codec k < 2 ^ 32" by (simp add: stored_codec_def)
qed

section \<open>A pool without workers\<close>

text \<open>
  \<open>main\<close> makes the pool with \<open>std::thread::hardware_concurrency()\<close> workers, which may
  be 0. Then no thread runs \<open>worker_thread\<close>: the tasks stay in the queue, \<open>shutdown\<close>
  has nothing to join and returns, and phase 3 writes an empty container.
\<close>

lemma zero_workers_step:
  assumes "workers s = []" "compressed_chunks s = []" "cerr s = []" "out_file s = []"
  shows "workers (step cd t s) = [] \<and> compressed_chunks (step cd t s) = []
       \<and> cerr (step cd t s) = [] \<and> out_file (step cd t s) = []"
proof (cases t)
  case Main
  show ?thesis
    using assms unfolding Main
    by (auto simp: step_def main_step_def enqueue_def sort_by_id_def write_frames_def Let_def
          split: main_pc.splits list.splits)
next
  case (Worker i)
  with assms show ?thesis by (simp add: step_def)
qed

lemma zero_workers_run:
  "workers s = [] \<Longrightarrow> compressed_chunks s = [] \<Longrightarrow> cerr s = [] \<Longrightarrow> out_file s = [] \<Longrightarrow>
     workers (run cd sched s) = [] \<and> compressed_chunks (run cd sched s) = []
       \<and> cerr (run cd sched s) = [] \<and> out_file (run cd sched s) = []"
proof (induction sched arbitrary: s)
  case Nil
  then show ?case by simp
next
  case (Cons t sched)
  from zero_workers_step[OF Cons.prems, of cd t] show ?case
    by (simp add: Cons.IH)
qed

lemma zero_workers_container_empty:
  assumes "compressor_main 0 C cd sched file = Some s"
  shows "compressed_chunks s = [] \<and> out_file s = []"
proof -
  from assms obtain chunks where s: "s = run cd sched (start 0 chunks)"
    by (auto simp: compressor_main_def split: option.splits)
  have "workers (start 0 chunks) = []" "compressed_chunks (start 0 chunks) = []"
    "cerr (start 0 chunks) = []" "out_file (start 0 chunks) = []"
    by (simp_all add: start_def)
  from zero_workers_run[OF this, of cd sched] show ?thesis unfolding s by simp
qed

lemma zero_workers_no_round_trip:
  assumes "compressor_main 0 C cd sched file = Some s" "file \<noteq> []"
  shows "decompressor_main cd C (out_file s) = Inr [] \<and> decompressor_main cd C (out_file s) \<noteq> Inr file"
proof -
  have "out_file s = []" using zero_workers_container_empty[OF assms(1)] by simp
  moreover have "decompressor_main cd C [] = Inr []"
    by (simp add: decompressor_main_def open_file_def peek_def)
  ultimately show ?thesis using assms(2) by auto
qed

lemma read_chunks_one_byte:
  "read_chunks CHUNK_SIZE [1] = Some [\<lparr>chunk_id = 0, chunk_data = [1]\<rparr>]"
  using read_chunks_eq[OF CHUNK_SIZE_pos, of "[1]"]
  by (simp add: CHUNK_SIZE_def chunk_at_def)

lemma run_zero_workers:
  "run cd [Main, Main, Main, Main] (start 0 [\<lparr>chunk_id = 0, chunk_data = [1]\<rparr>]) =
     \<lparr>pc = Exit 0, workers = [], tasks = [\<lparr>chunk_id = 0, chunk_data = [1]\<rparr>], stop = True,
        compressed_chunks = [], cerr = [], out_file = []\<rparr>"
  by (simp add: start_def step_def main_step_def enqueue_def sort_by_id_def write_frames_def)

lemma run_zero_workers_shutdown:
  "run cd [Main, Main, Main] (start 0 [\<lparr>chunk_id = 0, chunk_data = [1]\<rparr>]) =
     \<lparr>pc = Write_output, workers = [], tasks = [\<lparr>chunk_id = 0, chunk_data = [1]\<rparr>], stop = True,
        compressed_chunks = [], cerr = [], out_file = []\<rparr>"
  by (simp add: start_def step_def main_step_def enqueue_def)

section \<open>The barrier\<close>



section \<open>The result set\<close>

text \<open>
  With at least one worker, for a run over the chunks of a file in which no
  \<open>compressData\<close> throws: at no time does \<open>compressed_chunks\<close> hold an id twice, and once
  \<open>pool.shutdown()\<close> has returned it holds as many entries as there are chunks, with
  exactly the ids \<open>0, ..., N - 1\<close>.
\<close>

lemma result_set_complete:
  assumes "0 < C" "0 < n" "read_chunks C file = Some chunks"
    and "\<forall>c \<in> set chunks. \<exists>d. compressData cd (chunk_data c) = Inr d"
    and "s = run cd sched (start n chunks)"
  shows "distinct (map cc_id (compressed_chunks s))
       \<and> (shutdown_returned s \<longrightarrow>
            length (compressed_chunks s) = length chunks
            \<and> set (map cc_id (compressed_chunks s)) = {0..<length chunks})"
proof (cases "chunks = []")
  case True
  then have "s = start n []" using assms(5) by (simp add: run_start_empty)
  then show ?thesis using True by (simp add: start_def)
next
  case False
  then have inv: "pool_inv cd n chunks s" unfolding assms(5) by (rule pool_inv_reach)
  note ids = read_chunks_facts(1)[OF assms(1,3)]
  have d: "distinct (map chunk_id chunks)" unfolding ids by simp
  have 1: "distinct (map cc_id (compressed_chunks s))"
    by (rule ids_so_far_distinct[OF inv d])
  have 2: "length (compressed_chunks s) = length chunks
            \<and> set (map cc_id (compressed_chunks s)) = {0..<length chunks}"
    if "shutdown_returned s"
  proof -
    have m: "mset (compressed_chunks s) = mset (task_results cd chunks)"
      by (rule after_shutdown(5)[OF inv assms(2) that])
    then have "mset (map cc_id (compressed_chunks s)) = mset (map cc_id (task_results cd chunks))"
      by simp
    then have e: "mset (map cc_id (compressed_chunks s)) = mset [0..<length chunks]"
      using task_results_no_failure[OF assms(4)] ids by simp
    from arg_cong[OF e, of size] arg_cong[OF e, of set_mset] show ?thesis by simp
  qed
  from 1 2 show ?thesis by blast
qed

lemma result_set_complete_example:
  "read_chunks 2 [1, 2, 3, 4, 5] =
     Some [\<lparr>chunk_id = 0, chunk_data = [1, 2]\<rparr>, \<lparr>chunk_id = 1, chunk_data = [3, 4]\<rparr>,
           \<lparr>chunk_id = 2, chunk_data = [5]\<rparr>]
   \<and> shutdown_returned (run stored_codec (take 15 schedule_two_workers)
     (start 2 [\<lparr>chunk_id = 0, chunk_data = [1, 2]\<rparr>, \<lparr>chunk_id = 1, chunk_data = [3, 4]\<rparr>,
               \<lparr>chunk_id = 2, chunk_data = [5]\<rparr>]))
   \<and> map cc_id (compressed_chunks (run stored_codec (take 15 schedule_two_workers)
     (start 2 [\<lparr>chunk_id = 0, chunk_data = [1, 2]\<rparr>, \<lparr>chunk_id = 1, chunk_data = [3, 4]\<rparr>,
               \<lparr>chunk_id = 2, chunk_data = [5]\<rparr>]))) = [1, 0, 2]
   \<and> set (map cc_id (compressed_chunks (run stored_codec (take 15 schedule_two_workers)
     (start 2 [\<lparr>chunk_id = 0, chunk_data = [1, 2]\<rparr>, \<lparr>chunk_id = 1, chunk_data = [3, 4]\<rparr>,
               \<lparr>chunk_id = 2, chunk_data = [5]\<rparr>])))) = {0..<3}"
proof -
  let ?chunks = "[\<lparr>chunk_id = 0, chunk_data = [1, 2]\<rparr>, \<lparr>chunk_id = 1, chunk_data = [3, 4]\<rparr>,
               \<lparr>chunk_id = 2, chunk_data = [5]\<rparr>]"
  let ?s = "run stored_codec (take 15 schedule_two_workers) (start 2 ?chunks)"
  have pos: "0 < (2::nat)" by simp
  have ok: "\<forall>c \<in> set ?chunks. \<exists>d. compressData stored_codec (chunk_data c) = Inr d"
    by (simp add: compressData_def stored_codec_def zlib_bound_def)
  have ret: "shutdown_returned ?s"
    by (simp only: run_two_workers_before_sort) (simp add: shutdown_returned_def)
  have ids: "map cc_id (compressed_chunks ?s) = [1, 0, 2]"
    by (simp only: run_two_workers_before_sort) simp
  from result_set_complete[OF pos pos read_chunks_example ok refl, of "take 15 schedule_two_workers"] ret
  have "set (map cc_id (compressed_chunks ?s)) = {0..<length ?chunks}" by blast
  moreover have "length ?chunks = 3" by simp
  ultimately have "set (map cc_id (compressed_chunks ?s)) = {0..<3}" by (simp only:)
  with read_chunks_example ret ids show ?thesis by (intro conjI)
qed

text \<open>
  Claim C7 fails on the code when \<open>hardware_concurrency()\<close> is 0. For the file of the
  single byte 1, at \<open>CHUNK_SIZE\<close>: one chunk is submitted, no compression fails (none is
  run), and after \<open>pool.shutdown()\<close> has returned \<open>compressed_chunks\<close> is empty and the
  task is still in the queue, although the comment in \<open>main\<close> says that the call blocks
  until all enqueued compression tasks are complete.
\<close>

theorem zero_workers_leave_result_set_empty:
  "read_chunks CHUNK_SIZE [1] = Some [\<lparr>chunk_id = 0, chunk_data = [1]\<rparr>]
   \<and> compressData stored_codec [1] = Inr [120, 1]
   \<and> run stored_codec [Main, Main, Main] (start 0 [\<lparr>chunk_id = 0, chunk_data = [1]\<rparr>]) =
       \<lparr>pc = Write_output, workers = [], tasks = [\<lparr>chunk_id = 0, chunk_data = [1]\<rparr>], stop = True,
          compressed_chunks = [], cerr = [], out_file = []\<rparr>
   \<and> shutdown_returned
        (run stored_codec [Main, Main, Main] (start 0 [\<lparr>chunk_id = 0, chunk_data = [1]\<rparr>]))"
proof -
  have "compressData stored_codec [1] = Inr [120, 1]"
    by (simp add: compressData_def stored_codec_def zlib_bound_def)
  moreover have "shutdown_returned
        (run stored_codec [Main, Main, Main] (start 0 [\<lparr>chunk_id = 0, chunk_data = [1]\<rparr>]))"
    by (simp only: run_zero_workers_shutdown) (simp add: shutdown_returned_def)
  ultimately show ?thesis
    using read_chunks_one_byte run_zero_workers_shutdown[of stored_codec] by (intro conjI)
qed

section \<open>Determinism of the container\<close>

text \<open>
  Claim C6. Two runs of the compressor on the same file with the same chunk size write the
  same container, whatever their schedules and their (positive) numbers of workers.
\<close>

theorem container_is_deterministic:
  assumes "0 < C" "0 < n" "0 < m"
    and "compressor_main n C cd sched file = Some s" "pc s = Exit code"
    and "compressor_main m C cd sched' file = Some s'" "pc s' = Exit code'"
  shows "out_file s = out_file s'"
proof -
  obtain chunks where c: "read_chunks C file = Some chunks"
    using read_chunks_eq[OF assms(1)] by blast
  have s: "s = run cd sched (start n chunks)" and s': "s' = run cd sched' (start m chunks)"
    using assms(4,6) c by (simp_all add: compressor_main_def)
  show ?thesis
    using final_of_run(3)[OF assms(1,2) c s assms(5)] final_of_run(3)[OF assms(1,3) c s' assms(7)]
    by simp
qed

theorem container_is_deterministic_witness:
  "compressor_main 2 2 stored_codec schedule_two_workers [1, 2, 3, 4, 5] =
     Some \<lparr>pc = Exit 0, workers = [Exited, Exited], tasks = [], stop = True,
        compressed_chunks =
          [\<lparr>cc_id = 0, cc_data = [120, 1, 2]\<rparr>, \<lparr>cc_id = 1, cc_data = [120, 3, 4]\<rparr>,
           \<lparr>cc_id = 2, cc_data = [120, 5]\<rparr>],
        cerr = [],
        out_file = [3, 0, 0, 0, 120, 1, 2, 3, 0, 0, 0, 120, 3, 4, 2, 0, 0, 0, 120, 5]\<rparr>
   \<and> (\<exists>s'. compressor_main 1 2 stored_codec schedule_one_worker [1, 2, 3, 4, 5] = Some s'
        \<and> pc s' = Exit 0 \<and> workers s' = [Exited]
        \<and> out_file s' = [3, 0, 0, 0, 120, 1, 2, 3, 0, 0, 0, 120, 3, 4, 2, 0, 0, 0, 120, 5])"
proof -
  let ?chunks = "[\<lparr>chunk_id = 0, chunk_data = [1, 2]\<rparr>, \<lparr>chunk_id = 1, chunk_data = [3, 4]\<rparr>,
               \<lparr>chunk_id = 2, chunk_data = [5]\<rparr>]"
  let ?sA = "run stored_codec schedule_two_workers (start 2 ?chunks)"
  let ?sB = "run stored_codec schedule_one_worker (start 1 ?chunks)"
  have pos: "0 < (2::nat)" "0 < (1::nat)" by simp_all
  have A: "compressor_main 2 2 stored_codec schedule_two_workers [1, 2, 3, 4, 5] = Some ?sA"
    by (simp only: compressor_main_def read_chunks_example option.case)
  have B: "compressor_main 1 2 stored_codec schedule_one_worker [1, 2, 3, 4, 5] = Some ?sB"
    by (simp only: compressor_main_def read_chunks_example option.case)
  have pA: "pc ?sA = Exit 0" by (simp only: run_two_workers) simp
  have pB: "pc ?sB = Exit 0" "workers ?sB = [Exited]" by (simp only: run_one_worker, simp)+
  have oA: "out_file ?sA = [3, 0, 0, 0, 120, 1, 2, 3, 0, 0, 0, 120, 3, 4, 2, 0, 0, 0, 120, 5]"
    by (simp only: run_two_workers) simp
  from container_is_deterministic[OF pos(1) pos(1) pos(2) A pA B pB(1)]
  have "out_file ?sB = out_file ?sA" by simp
  with oA have oB: "out_file ?sB = [3, 0, 0, 0, 120, 1, 2, 3, 0, 0, 0, 120, 3, 4, 2, 0, 0, 0, 120, 5]"
    by simp
  have "compressor_main 2 2 stored_codec schedule_two_workers [1, 2, 3, 4, 5] =
     Some \<lparr>pc = Exit 0, workers = [Exited, Exited], tasks = [], stop = True,
        compressed_chunks =
          [\<lparr>cc_id = 0, cc_data = [120, 1, 2]\<rparr>, \<lparr>cc_id = 1, cc_data = [120, 3, 4]\<rparr>,
           \<lparr>cc_id = 2, cc_data = [120, 5]\<rparr>],
        cerr = [],
        out_file = [3, 0, 0, 0, 120, 1, 2, 3, 0, 0, 0, 120, 3, 4, 2, 0, 0, 0, 120, 5]\<rparr>"
    by (simp only: A run_two_workers)
  with B pB oB show ?thesis by blast
qed

section \<open>A failing task\<close>

text \<open>
  Claim C3. Let \<open>compressData\<close> throw on a chunk of the file. Every run can still be
  continued to the end, and a run that has ended has exit code 0, has logged the
  exception (one log line per failing chunk), holds in \<open>compressed_chunks\<close> the results
  of the other chunks only, fewer than there are chunks and none with the id of the
  failing chunk, and has written their frames and nothing else to the container.
\<close>

theorem failed_chunk_is_dropped:
  assumes "0 < C" "0 < n" "read_chunks C file = Some chunks"
    and "c \<in> set chunks" "compressData cd (chunk_data c) = Inl e"
    and "s = run cd sched (start n chunks)"
  shows "(\<exists>sched'. pc (run cd sched' s) = Exit 0)
       \<and> (\<forall>code. pc s = Exit code \<longrightarrow>
            code = 0 \<and> e \<in> set (cerr s)
            \<and> length (cerr s) = length (filter (\<lambda>c. isl (compressData cd (chunk_data c))) chunks)
            \<and> compressed_chunks s
                 = task_results cd (filter (\<lambda>c. \<not> isl (compressData cd (chunk_data c))) chunks)
            \<and> chunk_id c \<notin> set (map cc_id (compressed_chunks s))
            \<and> length (compressed_chunks s) < length chunks
            \<and> out_file s = write_frames (compressed_chunks s))"
proof (intro conjI allI impI)
  show "\<exists>sched'. pc (run cd sched' s) = Exit 0"
    unfolding assms(6) by (rule run_can_complete)
next
  fix code assume ex: "pc s = Exit code"
  note f = final_of_run[OF assms(1,2,3,6) ex]
  note ids = read_chunks_facts(1)[OF assms(1,3)]
  have dst: "distinct (map chunk_id chunks)" unfolding ids by simp
  let ?ok = "\<lambda>c. \<not> isl (compressData cd (chunk_data c))"
  show "code = 0" by (rule f(1))
  have "set (cerr s) = set (task_logs cd chunks)" using f(4) by (rule mset_eq_setD)
  then show "e \<in> set (cerr s)" using task_logs_member[OF assms(4,5)] by simp
  show "length (cerr s) = length (filter (\<lambda>c. isl (compressData cd (chunk_data c))) chunks)"
    using arg_cong[OF f(4), of size] by (simp add: length_task_logs)
  show "compressed_chunks s = task_results cd (filter ?ok chunks)"
    using f(2) by (simp add: task_results_filter)
  show "chunk_id c \<notin> set (map cc_id (compressed_chunks s))"
  proof
    assume "chunk_id c \<in> set (map cc_id (compressed_chunks s))"
    then have "chunk_id c \<in> chunk_id ` set (filter ?ok chunks)"
      by (simp add: f(2) ids_task_results)
    then obtain c' where c': "c' \<in> set chunks" "?ok c'" "chunk_id c' = chunk_id c" by auto
    have "inj_on chunk_id (set chunks)" using dst by (simp add: distinct_map)
    then have "c' = c" using c' assms(4) by (auto dest: inj_onD)
    with c'(2) assms(5) show False by simp
  qed
  have "length (filter ?ok chunks) < length chunks"
    using assms(4,5) by (intro length_filter_less[of c]) simp_all
  then show "length (compressed_chunks s) < length chunks"
    by (simp add: f(2) length_task_results)
  show "out_file s = write_frames (compressed_chunks s)" by (simp add: f(2,3))
qed

theorem failed_chunk_is_dropped_witness:
  "read_chunks 2 [1, 2, 255, 4, 5] =
     Some [\<lparr>chunk_id = 0, chunk_data = [1, 2]\<rparr>, \<lparr>chunk_id = 1, chunk_data = [255, 4]\<rparr>,
           \<lparr>chunk_id = 2, chunk_data = [5]\<rparr>]
   \<and> compressData picky_codec [255, 4] = Inl Compression_failed
   \<and> run picky_codec schedule_two_workers
     (start 2 [\<lparr>chunk_id = 0, chunk_data = [1, 2]\<rparr>, \<lparr>chunk_id = 1, chunk_data = [255, 4]\<rparr>,
               \<lparr>chunk_id = 2, chunk_data = [5]\<rparr>]) =
     \<lparr>pc = Exit 0, workers = [Exited, Exited], tasks = [], stop = True,
        compressed_chunks =
          [\<lparr>cc_id = 0, cc_data = [120, 1, 2]\<rparr>, \<lparr>cc_id = 2, cc_data = [120, 5]\<rparr>],
        cerr = [Compression_failed],
        out_file = [3, 0, 0, 0, 120, 1, 2, 2, 0, 0, 0, 120, 5]\<rparr>
   \<and> write_frames [\<lparr>cc_id = 0, cc_data = [120, 1, 2]\<rparr>, \<lparr>cc_id = 2, cc_data = [120, 5]\<rparr>]
       = [3, 0, 0, 0, 120, 1, 2, 2, 0, 0, 0, 120, 5]"
proof -
  let ?bad = "\<lparr>chunk_id = 1, chunk_data = [255, 4]\<rparr>"
  let ?chunks = "[\<lparr>chunk_id = 0, chunk_data = [1, 2]\<rparr>, ?bad, \<lparr>chunk_id = 2, chunk_data = [5]\<rparr>]"
  let ?s = "run picky_codec schedule_two_workers (start 2 ?chunks)"
  have pos: "0 < (2::nat)" by simp
  have mem: "?bad \<in> set ?chunks" by simp
  have bad: "compressData picky_codec (chunk_data ?bad) = Inl Compression_failed"
    by (simp add: compressData_def picky_codec_def stored_codec_def zlib_bound_def)
  have ex: "pc ?s = Exit 0" by (simp only: run_picky) simp
  from failed_chunk_is_dropped[OF pos pos read_chunks_example_255 mem bad refl, of schedule_two_workers] ex
  have "out_file ?s = write_frames (compressed_chunks ?s)" by blast
  then have "write_frames [\<lparr>cc_id = 0, cc_data = [120, 1, 2]\<rparr>, \<lparr>cc_id = 2, cc_data = [120, 5]\<rparr>]
       = [3, 0, 0, 0, 120, 1, 2, 2, 0, 0, 0, 120, 5]"
    by (simp only: run_picky) simp
  with read_chunks_example_255 bad run_picky show ?thesis by simp
qed

section \<open>The round trip\<close>

text \<open>
  Let the codec turn back what it compressed, for payloads of at most \<open>C\<close> bytes, and let
  zlib's \<open>compress\<close> keep within a buffer of \<open>compressBound\<close> bytes, which is less than
  \<open>2^32\<close>. With at least one worker, phase 1 ends, every run of the compressor can be
  continued to the end, and the decompressor turns the container of a run that has
  ended back into the file, with exit code 0.
\<close>

lemma compress_then_decompress:
  assumes "0 < C" "0 < n" "codec_roundtrip cd C" "respects_capacity cd"
    and "\<forall>k \<le> C. compressBound cd k < 2 ^ 32"
  shows "\<exists>s. compressor_main n C cd sched file = Some s
       \<and> (\<exists>sched'. pc (run cd sched' s) = Exit 0)
       \<and> (\<forall>code. pc s = Exit code \<longrightarrow>
             code = 0 \<and> decompressor_main cd C (out_file s) = Inr file)"
proof -
  obtain chunks where c: "read_chunks C file = Some chunks"
    using read_chunks_eq[OF assms(1)] by blast
  define s where "s = run cd sched (start n chunks)"
  have 1: "compressor_main n C cd sched file = Some s"
    by (simp add: compressor_main_def c s_def)
  have 2: "\<exists>sched'. pc (run cd sched' s) = Exit 0"
    unfolding s_def by (rule run_can_complete)
  have 3: "code = 0 \<and> decompressor_main cd C (out_file s) = Inr file" if ex: "pc s = Exit code" for code
  proof -
    note f = final_of_run[OF assms(1,2) c s_def ex]
    note r = task_results_roundtrip[OF assms(3,4,5) read_chunks_facts(3)[OF assms(1) c]]
    have "decompressor_main cd C (out_file s) = Inr (decoded cd C (task_results cd chunks))"
      unfolding f(3) using r by (intro decompressor_main_frames) blast
    also have "decoded cd C (task_results cd chunks) = file"
      using r read_chunks_facts(2)[OF assms(1) c] by simp
    finally show ?thesis using f(1) by simp
  qed
  from 1 2 3 show ?thesis by blast
qed

lemma compress_then_decompress_example:
  "compressor_main 2 2 stored_codec schedule_two_workers [1, 2, 3, 4, 5] =
     Some \<lparr>pc = Exit 0, workers = [Exited, Exited], tasks = [], stop = True,
        compressed_chunks =
          [\<lparr>cc_id = 0, cc_data = [120, 1, 2]\<rparr>, \<lparr>cc_id = 1, cc_data = [120, 3, 4]\<rparr>,
           \<lparr>cc_id = 2, cc_data = [120, 5]\<rparr>],
        cerr = [],
        out_file = [3, 0, 0, 0, 120, 1, 2, 3, 0, 0, 0, 120, 3, 4, 2, 0, 0, 0, 120, 5]\<rparr>
   \<and> decompressor_main stored_codec 2
        [3, 0, 0, 0, 120, 1, 2, 3, 0, 0, 0, 120, 3, 4, 2, 0, 0, 0, 120, 5] = Inr [1, 2, 3, 4, 5]"
proof -
  have pos: "0 < (2::nat)" by simp
  have ev: "compressor_main 2 2 stored_codec schedule_two_workers [1, 2, 3, 4, 5] =
     Some \<lparr>pc = Exit 0, workers = [Exited, Exited], tasks = [], stop = True,
        compressed_chunks =
          [\<lparr>cc_id = 0, cc_data = [120, 1, 2]\<rparr>, \<lparr>cc_id = 1, cc_data = [120, 3, 4]\<rparr>,
           \<lparr>cc_id = 2, cc_data = [120, 5]\<rparr>],
        cerr = [],
        out_file = [3, 0, 0, 0, 120, 1, 2, 3, 0, 0, 0, 120, 3, 4, 2, 0, 0, 0, 120, 5]\<rparr>"
    by (simp only: compressor_main_def read_chunks_example option.case run_two_workers)
  from compress_then_decompress[OF pos pos stored_codec_roundtrip stored_codec_capacity
      stored_codec_bound, of schedule_two_workers "[1, 2, 3, 4, 5]"]
  obtain s where s: "compressor_main 2 2 stored_codec schedule_two_workers [1, 2, 3, 4, 5] = Some s"
    and d: "\<forall>code. pc s = Exit code \<longrightarrow>
             code = 0 \<and> decompressor_main stored_codec 2 (out_file s) = Inr [1, 2, 3, 4, 5]"
    by blast
  from s ev have e: "s = \<lparr>pc = Exit 0, workers = [Exited, Exited], tasks = [], stop = True,
        compressed_chunks =
          [\<lparr>cc_id = 0, cc_data = [120, 1, 2]\<rparr>, \<lparr>cc_id = 1, cc_data = [120, 3, 4]\<rparr>,
           \<lparr>cc_id = 2, cc_data = [120, 5]\<rparr>],
        cerr = [],
        out_file = [3, 0, 0, 0, 120, 1, 2, 3, 0, 0, 0, 120, 3, 4, 2, 0, 0, 0, 120, 5]\<rparr>"
    by simp
  have "pc s = Exit 0"
    and o: "out_file s = [3, 0, 0, 0, 120, 1, 2, 3, 0, 0, 0, 120, 3, 4, 2, 0, 0, 0, 120, 5]"
    unfolding e by simp_all
  with d have "decompressor_main stored_codec 2 (out_file s) = Inr [1, 2, 3, 4, 5]" by blast
  then have "decompressor_main stored_codec 2
        [3, 0, 0, 0, 120, 1, 2, 3, 0, 0, 0, 120, 3, 4, 2, 0, 0, 0, 120, 5] = Inr [1, 2, 3, 4, 5]"
    unfolding o .
  with ev show ?thesis by (rule conjI)
qed

text \<open>
  Claim C1 fails on the code when \<open>hardware_concurrency()\<close> is 0. For the file of the
  single byte 1, at \<open>CHUNK_SIZE\<close> and for every codec: \<open>main\<close> enqueues the chunk, sets
  \<open>stop\<close>, joins no worker, writes no frame and returns 0; the decompressor turns the
  empty container into the empty file, not into the byte 1. By the lemmas on a pool
  without workers this is so for every non-empty file and every schedule.
\<close>

theorem zero_workers_break_round_trip:
  "compressor_main 0 CHUNK_SIZE cd [Main, Main, Main, Main] [1] =
     Some \<lparr>pc = Exit 0, workers = [], tasks = [\<lparr>chunk_id = 0, chunk_data = [1]\<rparr>], stop = True,
        compressed_chunks = [], cerr = [], out_file = []\<rparr>
   \<and> decompressor_main cd CHUNK_SIZE [] = Inr []"
proof -
  have "compressor_main 0 CHUNK_SIZE cd [Main, Main, Main, Main] [1] =
     Some \<lparr>pc = Exit 0, workers = [], tasks = [\<lparr>chunk_id = 0, chunk_data = [1]\<rparr>], stop = True,
        compressed_chunks = [], cerr = [], out_file = []\<rparr>"
    by (simp only: compressor_main_def read_chunks_one_byte option.case run_zero_workers)
  moreover have "decompressor_main cd CHUNK_SIZE [] = Inr []"
    by (simp add: decompressor_main_def open_file_def peek_def)
  ultimately show ?thesis by (rule conjI)
qed

end
